theory Spec2Isabelle
  imports Main
begin

section \<open>The Quoridor rules engine of \<open>quoridor/__init__.py\<close>\<close>

text \<open>
  The embedding follows the Python module class by class. A \<open>Square\<close> object is created
  once per grid position in \<open>Board.__init__\<close> (\<open>table[y][x] = Square(game, x, y)\<close>) and
  is never replaced, and the module compares squares by identity only (\<open>is\<close>, and the
  default \<open>==\<close> behind \<open>in\<close>). A reference to a square is therefore modelled by its
  coordinate pair \<open>(x, y)\<close>, and the two mutable flags of every square are fields of the
  board, indexed by that pair. Python integers are unbounded, hence \<open>int\<close>.

  Python strings are modelled by \<open>string\<close>; only code points below 256 are covered.
\<close>

subsection \<open>Cardinal points\<close>

datatype CardinalPoint = WEST | EAST | NORTH | SOUTH

text \<open>Iterating over the \<open>Enum\<close> class yields its members in definition order.\<close>

definition cardinal_points :: "CardinalPoint list" where
  "cardinal_points = [WEST, EAST, NORTH, SOUTH]"

fun orthogonal_points :: "CardinalPoint \<Rightarrow> CardinalPoint list" where
  "orthogonal_points NORTH = [WEST, EAST]"
| "orthogonal_points SOUTH = [WEST, EAST]"
| "orthogonal_points WEST = [NORTH, SOUTH]"
| "orthogonal_points EAST = [NORTH, SOUTH]"

subsection \<open>Squares and the board\<close>

type_synonym square = "int \<times> int"

record board =
  width :: int
  height :: int
  has_horizontal_fence :: "square \<Rightarrow> bool"
  has_vertical_fence :: "square \<Rightarrow> bool"

text \<open>\<open>Board.get(y, x)\<close>: the square at column \<open>x\<close>, row \<open>y\<close>, or \<open>None\<close> off the board.\<close>

definition board_get :: "board \<Rightarrow> int \<Rightarrow> int \<Rightarrow> square option" where
  "board_get b y x =
     (if 0 \<le> x \<and> x < width b \<and> 0 \<le> y \<and> y < height b then Some (x, y) else None)"

fun west_square :: "board \<Rightarrow> square \<Rightarrow> square option" where
  "west_square b (x, y) = board_get b y (x - 1)"

fun east_square :: "board \<Rightarrow> square \<Rightarrow> square option" where
  "east_square b (x, y) = board_get b y (x + 1)"

fun north_square :: "board \<Rightarrow> square \<Rightarrow> square option" where
  "north_square b (x, y) = board_get b (y - 1) x"

fun south_square :: "board \<Rightarrow> square \<Rightarrow> square option" where
  "south_square b (x, y) = board_get b (y + 1) x"

text \<open>
  The four fence properties. Python's \<open>a and b\<close> yields \<open>a\<close> when \<open>a\<close> is \<open>None\<close>;
  the results are only ever used as truth values, so they are modelled by \<open>bool\<close>
  with \<open>None\<close> read as false. A \<open>Square\<close> object itself is always truthy.
\<close>

definition west_fence :: "board \<Rightarrow> square \<Rightarrow> bool" where
  "west_fence b sq =
     ((case west_square b sq of None \<Rightarrow> False | Some w \<Rightarrow> has_vertical_fence b w)
      \<or> (case west_square b sq of None \<Rightarrow> False
          | Some w \<Rightarrow> (case north_square b w of None \<Rightarrow> False
                       | Some n \<Rightarrow> has_vertical_fence b n)))"

definition east_fence :: "board \<Rightarrow> square \<Rightarrow> bool" where
  "east_fence b sq =
     (has_vertical_fence b sq
      \<or> (case north_square b sq of None \<Rightarrow> False | Some n \<Rightarrow> has_vertical_fence b n))"

definition north_fence :: "board \<Rightarrow> square \<Rightarrow> bool" where
  "north_fence b sq =
     ((case north_square b sq of None \<Rightarrow> False | Some n \<Rightarrow> has_horizontal_fence b n)
      \<or> (case north_square b sq of None \<Rightarrow> False
          | Some n \<Rightarrow> (case west_square b n of None \<Rightarrow> False
                       | Some w \<Rightarrow> has_horizontal_fence b w)))"

definition south_fence :: "board \<Rightarrow> square \<Rightarrow> bool" where
  "south_fence b sq =
     (has_horizontal_fence b sq
      \<or> (case west_square b sq of None \<Rightarrow> False | Some w \<Rightarrow> has_horizontal_fence b w))"

fun square_at :: "board \<Rightarrow> square \<Rightarrow> CardinalPoint \<Rightarrow> square option" where
  "square_at b sq WEST = west_square b sq"
| "square_at b sq EAST = east_square b sq"
| "square_at b sq SOUTH = south_square b sq"
| "square_at b sq NORTH = north_square b sq"

fun has_fence_at :: "board \<Rightarrow> square \<Rightarrow> CardinalPoint \<Rightarrow> bool" where
  "has_fence_at b sq WEST = west_fence b sq"
| "has_fence_at b sq EAST = east_fence b sq"
| "has_fence_at b sq SOUTH = south_fence b sq"
| "has_fence_at b sq NORTH = north_fence b sq"

text \<open>\<open>square and not fenced\<close>, as a truth value.\<close>

definition is_connected_with_square_at :: "board \<Rightarrow> square \<Rightarrow> CardinalPoint \<Rightarrow> bool" where
  "is_connected_with_square_at b sq cardinal_point =
     (case square_at b sq cardinal_point of
        None \<Rightarrow> False
      | Some square \<Rightarrow> \<not> has_fence_at b sq cardinal_point)"

text \<open>The generator \<open>cardinal_neighbors\<close>, as the list of what it yields, in order.\<close>

fun neighbors_along :: "board \<Rightarrow> square \<Rightarrow> CardinalPoint list \<Rightarrow> square list" where
  "neighbors_along b sq [] = []"
| "neighbors_along b sq (cardinal_point # rest) =
     (if is_connected_with_square_at b sq cardinal_point
      then (case square_at b sq cardinal_point of
              None \<Rightarrow> neighbors_along b sq rest
            | Some n \<Rightarrow> n # neighbors_along b sq rest)
      else neighbors_along b sq rest)"

definition cardinal_neighbors :: "board \<Rightarrow> square \<Rightarrow> square list" where
  "cardinal_neighbors b sq = neighbors_along b sq cardinal_points"

definition place_horizontal_fence :: "board \<Rightarrow> square \<Rightarrow> board" where
  "place_horizontal_fence b sq =
     b\<lparr>has_horizontal_fence := (has_horizontal_fence b)(sq := True)\<rparr>"

definition place_vertical_fence :: "board \<Rightarrow> square \<Rightarrow> board" where
  "place_vertical_fence b sq =
     b\<lparr>has_vertical_fence := (has_vertical_fence b)(sq := True)\<rparr>"

subsection \<open>Errors and string indexing\<close>

datatype error = IndexError | ValueError | TypeError | ZeroDivisionError | NotStarted

text \<open>
  Indexing a Python list of length \<open>n\<close> with \<open>i\<close>: indices from \<open>-n\<close> to \<open>-1\<close> count
  from the end; anything else outside \<open>0 .. n-1\<close> raises \<open>IndexError\<close>. The result is
  the position that is read.
\<close>

definition list_index :: "int \<Rightarrow> int \<Rightarrow> error + int" where
  "list_index n i =
     (if 0 \<le> i \<and> i < n then Inr i
      else if - n \<le> i \<and> i < 0 then Inr (n + i)
      else Inl IndexError)"

text \<open>\<open>int(c)\<close> for a one-character string: a decimal digit, or \<open>ValueError\<close>.\<close>

definition int_of_char :: "char \<Rightarrow> error + int" where
  "int_of_char c =
     (if (48::nat) \<le> of_char c \<and> of_char c \<le> (57::nat)
      then Inr (int (of_char c) - 48) else Inl ValueError)"

text \<open>
  \<open>Board.__getitem__(coordinate)\<close>: \<open>table\<close> has \<open>height\<close> rows of \<open>width\<close> squares,
  and \<open>table[y][x]\<close> is indexed the Python way.
\<close>

definition getitem :: "board \<Rightarrow> string \<Rightarrow> error + square" where
  "getitem b coordinate =
     (case coordinate of
        [] \<Rightarrow> Inl IndexError
      | c0 # rest \<Rightarrow>
          (let x = int (of_char c0) - int (of_char (CHR ''a'')) in
           case rest of
             [] \<Rightarrow> Inl IndexError
           | c1 # _ \<Rightarrow>
               (case int_of_char c1 of
                  Inl e \<Rightarrow> Inl e
                | Inr v \<Rightarrow>
                    (let y = v - 1 in
                     case list_index (height b) y of
                       Inl e \<Rightarrow> Inl e
                     | Inr row \<Rightarrow>
                         (case list_index (width b) x of
                            Inl e \<Rightarrow> Inl e
                          | Inr col \<Rightarrow> Inr (col, row))))))"

text \<open>\<open>Board.get_row(y)\<close> for a row index within the board.\<close>

definition get_row :: "board \<Rightarrow> int \<Rightarrow> square list" where
  "get_row b y = map (\<lambda>x. (x, y)) [0 .. width b - 1]"

subsection \<open>Players and the game\<close>

record player =
  remaining_fences :: int
  pawn :: square
  goals :: "square list"

record game =
  players :: "player list"
  turn :: "int option"
  is_ingame :: bool
  board :: board

definition has_pawn :: "game \<Rightarrow> square \<Rightarrow> bool" where
  "has_pawn g sq = list_ex (\<lambda>p. pawn p = sq) (players g)"

text \<open>
  \<open>Game.current_player\<close>: \<open>self.players[self.turn % len(self.players)]\<close>. The position
  of the current player in the list is needed again when the pawn is assigned.
\<close>

definition current_index :: "game \<Rightarrow> error + nat" where
  "current_index g =
     (case turn g of
        None \<Rightarrow> Inl TypeError
      | Some t \<Rightarrow>
          (if players g = [] then Inl ZeroDivisionError
           else Inr (nat (t mod int (length (players g))))))"

definition current_player :: "game \<Rightarrow> error + player" where
  "current_player g =
     (case current_index g of Inl e \<Rightarrow> Inl e | Inr i \<Rightarrow> Inr (players g ! i))"

subsection \<open>Moves\<close>

datatype move =
  Move_MovePawn square
| Move_PlaceFenceHorizontally square
| Move_PlaceFenceVertically square

text \<open>\<open>Move.parse(game, s)\<close>.\<close>

definition parse :: "game \<Rightarrow> string \<Rightarrow> error + move" where
  "parse g s =
     (case getitem (board g) (take 2 s) of
        Inl e \<Rightarrow> Inl e
      | Inr coordinate \<Rightarrow>
          (if length s < 3 then Inr (Move_MovePawn coordinate)
           else if s ! 2 = CHR ''h'' then Inr (Move_PlaceFenceHorizontally coordinate)
           else if s ! 2 = CHR ''v'' then Inr (Move_PlaceFenceVertically coordinate)
           else Inl ValueError))"

subsection \<open>Pawn moves\<close>

text \<open>
  The body of the loop of \<open>Move_MovePawn.check_valid\<close> for one cardinal point: the
  squares that this iteration adds to \<open>possible_moves\<close>.
\<close>

fun orthogonal_moves :: "board \<Rightarrow> square \<Rightarrow> CardinalPoint list \<Rightarrow> square list" where
  "orthogonal_moves b square_1 [] = []"
| "orthogonal_moves b square_1 (orthogonal_point # rest) =
     (if is_connected_with_square_at b square_1 orthogonal_point
      then (case square_at b square_1 orthogonal_point of
              None \<Rightarrow> orthogonal_moves b square_1 rest
            | Some square_2 \<Rightarrow> square_2 # orthogonal_moves b square_1 rest)
      else orthogonal_moves b square_1 rest)"

definition moves_toward :: "game \<Rightarrow> square \<Rightarrow> CardinalPoint \<Rightarrow> square list" where
  "moves_toward g square_0 cardinal_point =
     (if \<not> is_connected_with_square_at (board g) square_0 cardinal_point then []
      else (case square_at (board g) square_0 cardinal_point of
              None \<Rightarrow> []
            | Some square_1 \<Rightarrow>
                (if has_pawn g square_1 then
                   (if is_connected_with_square_at (board g) square_1 cardinal_point
                    then (case square_at (board g) square_1 cardinal_point of
                            None \<Rightarrow> []
                          | Some square_2 \<Rightarrow> [square_2])
                    else orthogonal_moves (board g) square_1
                           (orthogonal_points cardinal_point))
                 else [square_1])))"

definition possible_moves :: "game \<Rightarrow> square \<Rightarrow> square set" where
  "possible_moves g square_0 =
     set (concat (map (moves_toward g square_0) cardinal_points))"

subsection \<open>The reachability search\<close>

text \<open>
  \<open>_can_player_reach_goal\<close> is the same text in both fence classes. Its inner
  \<open>for w in range(width)\<close> loop either executes \<open>return True\<close> or runs to its end
  with a new \<open>visited\<close> set and queue. \<open>Queue.get()\<close> on an empty queue would block for
  ever (value \<open>None\<close> of the model); it is never reached, since \<open>width\<close> is the queue's
  size.
\<close>

datatype ('r, 's) flow = Return 'r | Next 's

fun for_loop ::
  "board \<Rightarrow> square list \<Rightarrow> nat \<Rightarrow> square set \<Rightarrow> square list
     \<Rightarrow> (bool, square set \<times> square list) flow option" where
  "for_loop b gs 0 visited queue = Some (Next (visited, queue))"
| "for_loop b gs (Suc w) visited [] = None"
| "for_loop b gs (Suc w) visited (sq # queue) =
     (if sq \<in> set gs then Some (Return True)
      else if sq \<notin> visited
           then for_loop b gs w (insert sq visited) (queue @ cardinal_neighbors b sq)
           else for_loop b gs w visited queue)"

text \<open>
  The outer loop is \<open>while queue:\<close>, the truth test of a \<open>queue.Queue\<close> object. The class
  defines neither \<open>__bool__\<close> nor \<open>__len__\<close>, so the test is true whatever the queue holds.
\<close>

definition queue_truth :: "square list \<Rightarrow> bool" where
  "queue_truth queue = True"

partial_function (option) while_loop ::
  "board \<Rightarrow> square list \<Rightarrow> square set \<Rightarrow> square list \<Rightarrow> bool option" where
  "while_loop b gs visited queue =
     (if queue_truth queue then
        (case for_loop b gs (length queue) visited queue of
           None \<Rightarrow> None
         | Some (Return r) \<Rightarrow> Some r
         | Some (Next (visited', queue')) \<Rightarrow> while_loop b gs visited' queue')
      else Some False)"

declare while_loop.simps [code]

definition can_player_reach_goal :: "game \<Rightarrow> player \<Rightarrow> bool option" where
  "can_player_reach_goal g p = while_loop (board g) (goals p) {} [pawn p]"

subsection \<open>Validation and application of moves\<close>

text \<open>
  The loop over the players in the fence validators. A search that does not return
  keeps the validator from returning.
\<close>

fun players_loop :: "game \<Rightarrow> player list \<Rightarrow> bool option" where
  "players_loop g [] = Some True"
| "players_loop g (p # ps) =
     (case can_player_reach_goal g p of
        None \<Rightarrow> None
      | Some r \<Rightarrow> (if \<not> r then Some False else players_loop g ps))"

text \<open>
  \<open>check_valid\<close> of the three move classes. The methods assign to no attribute of the
  game, the board, a square or a player (the search works on a local set and a local
  queue), so validation is a function of the game state. \<open>None\<close> is a validation that
  does not return.
\<close>

fun check_valid :: "game \<Rightarrow> move \<Rightarrow> (error + bool) option" where
  "check_valid g (Move_MovePawn square) =
     (case current_player g of
        Inl e \<Rightarrow> Some (Inl e)
      | Inr p \<Rightarrow> Some (Inr (square \<in> possible_moves g (pawn p))))"
| "check_valid g (Move_PlaceFenceHorizontally square) =
     (if has_horizontal_fence (board g) square then Some (Inr False)
      else if (case east_square (board g) square of
                 None \<Rightarrow> False | Some e \<Rightarrow> has_horizontal_fence (board g) e)
      then Some (Inr False)
      else map_option Inr (players_loop g (players g)))"
| "check_valid g (Move_PlaceFenceVertically square) =
     (if has_vertical_fence (board g) square then Some (Inr False)
      else if (case south_square (board g) square of
                 None \<Rightarrow> False | Some s \<Rightarrow> has_vertical_fence (board g) s)
      then Some (Inr False)
      else map_option Inr (players_loop g (players g)))"

fun apply_move :: "game \<Rightarrow> move \<Rightarrow> error + game" where
  "apply_move g (Move_MovePawn square) =
     (case current_index g of
        Inl e \<Rightarrow> Inl e
      | Inr i \<Rightarrow> Inr (g\<lparr>players := (players g)[i := (players g ! i)\<lparr>pawn := square\<rparr>]\<rparr>))"
| "apply_move g (Move_PlaceFenceHorizontally square) =
     Inr (g\<lparr>board := place_horizontal_fence (board g) square\<rparr>)"
| "apply_move g (Move_PlaceFenceVertically square) =
     Inr (g\<lparr>board := place_vertical_fence (board g) square\<rparr>)"

subsection \<open>The game loop\<close>

text \<open>\<open>Game._setup\<close> followed by the assignments of \<open>Game._start\<close>; printing is left out.\<close>

definition empty_board :: "int \<Rightarrow> int \<Rightarrow> board" where
  "empty_board w h =
     \<lparr>width = w, height = h,
      has_horizontal_fence = (\<lambda>sq. False), has_vertical_fence = (\<lambda>sq. False)\<rparr>"

definition start :: game where
  "start =
     (let b = empty_board 9 9 in
      \<lparr>players =
         [\<lparr>remaining_fences = 20 div 2, pawn = (4, 0), goals = get_row b 8\<rparr>,
          \<lparr>remaining_fences = 20 div 2, pawn = (4, 8), goals = get_row b 0\<rparr>],
       turn = Some 1, is_ingame = True, board = b\<rparr>)"

definition end_turn :: "game \<Rightarrow> error + game" where
  "end_turn g =
     (case current_player g of
        Inl e \<Rightarrow> Inl e
      | Inr p \<Rightarrow>
          (if pawn p \<in> set (goals p) then Inr (g\<lparr>is_ingame := False\<rparr>)
           else Inr (g\<lparr>turn := map_option (\<lambda>t. t + 1) (turn g)\<rparr>)))"

text \<open>
  \<open>Game.move(s)\<close>. The rejecting branch only prints and calls \<open>_start_turn\<close>, which
  prints.
\<close>

definition move :: "game \<Rightarrow> string \<Rightarrow> (error + game) option" where
  "move g s =
     (if turn g = None then Some (Inl NotStarted)
      else (case parse g s of
              Inl e \<Rightarrow> Some (Inl e)
            | Inr m \<Rightarrow>
                (case check_valid g m of
                   None \<Rightarrow> None
                 | Some (Inl e) \<Rightarrow> Some (Inl e)
                 | Some (Inr ok) \<Rightarrow>
                     (if ok then
                        (case apply_move g m of
                           Inl e \<Rightarrow> Some (Inl e)
                         | Inr g' \<Rightarrow> Some (end_turn g'))
                      else Some (Inr g)))))"

text \<open>A session: \<open>Game.move\<close> called on each string in turn, up to the first exception.\<close>

fun play :: "game \<Rightarrow> string list \<Rightarrow> (error + game) option" where
  "play g [] = Some (Inr g)"
| "play g (s # rest) =
     (case move g s of
        None \<Rightarrow> None
      | Some (Inl e) \<Rightarrow> Some (Inl e)
      | Some (Inr g') \<Rightarrow> play g' rest)"

subsection \<open>Validation with the objects it creates\<close>

text \<open>
  The validators assign to no attribute of the game, but they do create and mutate
  objects of their own: the set \<open>possible_moves\<close> of \<open>Move_MovePawn.check_valid\<close>, and
  the set \<open>visited\<close> and the queue of \<open>_can_player_reach_goal\<close>. To state what a
  validation changes and what it leaves alone, the validators are given a second time
  here as state transformers, on a state that holds the game together with these three
  objects. Each function returns its result and the state it leaves behind.
\<close>

record memory =
  the_game :: game
  local_possible_moves :: "square set"
  local_visited :: "square set"
  local_queue :: "square list"

text \<open>
  The loop of \<open>Move_MovePawn.check_valid\<close> over the cardinal points: each iteration
  adds to the set the squares listed by \<open>moves_toward\<close>.
\<close>

fun add_moves :: "memory \<Rightarrow> square \<Rightarrow> CardinalPoint list \<Rightarrow> memory" where
  "add_moves m square_0 [] = m"
| "add_moves m square_0 (cardinal_point # rest) =
     add_moves
       (m\<lparr>local_possible_moves :=
            local_possible_moves m \<union> set (moves_toward (the_game m) square_0 cardinal_point)\<rparr>)
       square_0 rest"

text \<open>
  The inner loop of the search: \<open>queue.get()\<close>, the goal test, \<open>visited.add\<close> and one
  \<open>queue.put\<close> for every neighbour.
\<close>

fun for_loop_run ::
  "memory \<Rightarrow> square list \<Rightarrow> nat \<Rightarrow> (bool \<times> memory, memory) flow option" where
  "for_loop_run m gs 0 = Some (Next m)"
| "for_loop_run m gs (Suc w) =
     (case local_queue m of
        [] \<Rightarrow> None
      | sq # rest \<Rightarrow>
          (let m1 = m\<lparr>local_queue := rest\<rparr> in
           if sq \<in> set gs then Some (Return (True, m1))
           else if sq \<notin> local_visited m1
                then for_loop_run
                       (m1\<lparr>local_visited := insert sq (local_visited m1),
                           local_queue :=
                             local_queue m1 @ cardinal_neighbors (board (the_game m1)) sq\<rparr>)
                       gs w
                else for_loop_run m1 gs w))"

partial_function (option) while_loop_run ::
  "memory \<Rightarrow> square list \<Rightarrow> (bool \<times> memory) option" where
  "while_loop_run m gs =
     (if queue_truth (local_queue m) then
        (case for_loop_run m gs (length (local_queue m)) of
           None \<Rightarrow> None
         | Some (Return r) \<Rightarrow> Some r
         | Some (Next m') \<Rightarrow> while_loop_run m' gs)
      else Some (False, m))"

declare while_loop_run.simps [code]

text \<open>\<open>visited = set()\<close>, \<open>queue = Queue()\<close>, \<open>queue.put(player.pawn)\<close>, then the loops.\<close>

definition can_player_reach_goal_run :: "memory \<Rightarrow> player \<Rightarrow> (bool \<times> memory) option" where
  "can_player_reach_goal_run m p =
     while_loop_run (m\<lparr>local_visited := {}, local_queue := [pawn p]\<rparr>) (goals p)"

fun players_loop_run :: "memory \<Rightarrow> player list \<Rightarrow> (bool \<times> memory) option" where
  "players_loop_run m [] = Some (True, m)"
| "players_loop_run m (p # ps) =
     (case can_player_reach_goal_run m p of
        None \<Rightarrow> None
      | Some (r, m') \<Rightarrow> (if \<not> r then Some (False, m') else players_loop_run m' ps))"

text \<open>\<open>possible_moves = set()\<close> comes first in the pawn validator, before the current
  player is looked up.\<close>

fun check_valid_run :: "memory \<Rightarrow> move \<Rightarrow> ((error + bool) \<times> memory) option" where
  "check_valid_run m (Move_MovePawn square) =
     (let m0 = m\<lparr>local_possible_moves := {}\<rparr> in
      case current_player (the_game m0) of
        Inl e \<Rightarrow> Some (Inl e, m0)
      | Inr p \<Rightarrow>
          (let m1 = add_moves m0 (pawn p) cardinal_points
           in Some (Inr (square \<in> local_possible_moves m1), m1)))"
| "check_valid_run m (Move_PlaceFenceHorizontally square) =
     (if has_horizontal_fence (board (the_game m)) square then Some (Inr False, m)
      else if (case east_square (board (the_game m)) square of
                 None \<Rightarrow> False | Some e \<Rightarrow> has_horizontal_fence (board (the_game m)) e)
      then Some (Inr False, m)
      else map_option (\<lambda>(r, m'). (Inr r, m')) (players_loop_run m (players (the_game m))))"
| "check_valid_run m (Move_PlaceFenceVertically square) =
     (if has_vertical_fence (board (the_game m)) square then Some (Inr False, m)
      else if (case south_square (board (the_game m)) square of
                 None \<Rightarrow> False | Some s \<Rightarrow> has_vertical_fence (board (the_game m)) s)
      then Some (Inr False, m)
      else map_option (\<lambda>(r, m'). (Inr r, m')) (players_loop_run m (players (the_game m))))"

text \<open>\<open>Game.move\<close> on this state; \<open>apply\<close> and \<open>_end_turn\<close> assign to the game only.\<close>

definition move_run :: "memory \<Rightarrow> string \<Rightarrow> (error + memory) option" where
  "move_run m s =
     (if turn (the_game m) = None then Some (Inl NotStarted)
      else (case parse (the_game m) s of
              Inl e \<Rightarrow> Some (Inl e)
            | Inr mv \<Rightarrow>
                (case check_valid_run m mv of
                   None \<Rightarrow> None
                 | Some (Inl e, m') \<Rightarrow> Some (Inl e)
                 | Some (Inr ok, m') \<Rightarrow>
                     (if ok then
                        (case apply_move (the_game m') mv of
                           Inl e \<Rightarrow> Some (Inl e)
                         | Inr g' \<Rightarrow>
                             (case end_turn g' of
                                Inl e \<Rightarrow> Some (Inl e)
                              | Inr g'' \<Rightarrow> Some (Inr (m'\<lparr>the_game := g''\<rparr>))))
                      else Some (Inr m')))))"

subsection \<open>Paths on the board\<close>

text \<open>
  The notions the properties are stated with: the squares of the board, the open unit
  edges (one step of \<open>cardinal_neighbors\<close>), and the existence of an open path from a
  square to some square of a goal list.
\<close>

definition cells :: "board \<Rightarrow> square set" where
  "cells b = {(x, y). 0 \<le> x \<and> x < width b \<and> 0 \<le> y \<and> y < height b}"

definition open_edge :: "board \<Rightarrow> (square \<times> square) set" where
  "open_edge b = {(a, c). c \<in> set (cardinal_neighbors b a)}"

definition reachable :: "board \<Rightarrow> square \<Rightarrow> square list \<Rightarrow> bool" where
  "reachable b s gs = (\<exists>t\<in>set gs. (s, t) \<in> (open_edge b)\<^sup>*)"

text \<open>A set of squares that no open edge leaves.\<close>

definition neighbor_closed :: "board \<Rightarrow> square set \<Rightarrow> bool" where
  "neighbor_closed b R = (\<forall>a\<in>R. set (cardinal_neighbors b a) \<subseteq> R)"

text \<open>
  The invariant of the search: some queued square that is not yet visited starts an open
  path to a goal that stays outside the visited set.
\<close>

definition avoiding :: "board \<Rightarrow> square set \<Rightarrow> (square \<times> square) set" where
  "avoiding b V = {(a, c). c \<in> set (cardinal_neighbors b a) \<and> a \<notin> V \<and> c \<notin> V}"

definition frontier_ok :: "board \<Rightarrow> square list \<Rightarrow> square set \<Rightarrow> square list \<Rightarrow> bool" where
  "frontier_ok b gs V Q = (\<exists>q\<in>set Q. \<exists>t\<in>set gs. q \<notin> V \<and> (q, t) \<in> (avoiding b V)\<^sup>*)"

subsection \<open>Positions used as examples\<close>

text \<open>
  The game after \<open>start()\<close> with horizontal fences on the squares \<open>hs\<close> and the turn
  counter at \<open>t\<close>, the pawns still on \<open>e1\<close> and \<open>e9\<close>.
\<close>

definition wall :: "square list \<Rightarrow> int \<Rightarrow> game" where
  "wall hs t = start\<lparr>board := foldl place_horizontal_fence (board start) hs, turn := Some t\<rparr>"

text \<open>
  The game after \<open>start()\<close> and the four accepted moves \<open>a4h\<close>, \<open>c4h\<close>, \<open>e4h\<close>, \<open>g4h\<close>:
  horizontal fences under columns a to h of row 4.
\<close>

definition walled :: game where
  "walled =
     start\<lparr>board := foldl place_horizontal_fence (board start) [(0, 3), (2, 3), (4, 3), (6, 3)],
           turn := Some 5\<rparr>"

text \<open>The same game after the fifth fence \<open>i4h\<close> has been applied.\<close>

definition sealed :: game where
  "sealed = walled\<lparr>board := place_horizontal_fence (board walled) (8, 3)\<rparr>"

text \<open>The squares of rows 1 to 4 of the 9 by 9 board.\<close>

definition upper_rows :: "square set" where
  "upper_rows = {(x, y). 0 \<le> x \<and> x < 9 \<and> 0 \<le> y \<and> y \<le> 3}"

text \<open>
  The game after \<open>start()\<close> and the pawn moves \<open>e8 e2 e7 e3 e6 e4 e5\<close>: the first
  player, on \<open>e4\<close>, is to move and the second pawn stands south of it on \<open>e5\<close>.
\<close>

definition facing :: game where
  "facing =
     start\<lparr>players :=
             [(players start ! 0)\<lparr>pawn := (4, 3)\<rparr>, (players start ! 1)\<lparr>pawn := (4, 4)\<rparr>],
           turn := Some 8\<rparr>"

text \<open>The same position with a horizontal fence on \<open>e5\<close>, behind the second pawn.\<close>

definition blocked_jump :: game where
  "blocked_jump = facing\<lparr>board := place_horizontal_fence (board facing) (4, 4)\<rparr>"

text \<open>And with a second horizontal fence on \<open>e4\<close>, between the two pawns.\<close>

definition fenced_off :: game where
  "fenced_off = blocked_jump\<lparr>board := place_horizontal_fence (board blocked_jump) (4, 3)\<rparr>"

text \<open>The game after \<open>start()\<close> and the fences \<open>d5h\<close> and \<open>c2v\<close>.\<close>

definition adjoining :: game where
  "adjoining =
     start\<lparr>board := place_vertical_fence (place_horizontal_fence (board start) (3, 4)) (2, 1),
           turn := Some 3\<rparr>"

text \<open>The game after \<open>start()\<close> and the fences \<open>e5h\<close> and \<open>c3v\<close>.\<close>

definition crossing :: game where
  "crossing =
     start\<lparr>board := place_vertical_fence (place_horizontal_fence (board start) (4, 4)) (2, 2),
           turn := Some 3\<rparr>"

text \<open>The game after \<open>start()\<close>, before any validation has run.\<close>

definition idle :: memory where
  "idle = \<lparr>the_game = start, local_possible_moves = {}, local_visited = {}, local_queue = []\<rparr>"

section \<open>The reachability search: what it computes\<close>

text \<open>
  Soundness: whatever the search returns, it is \<open>True\<close>, and a goal lies in every
  set of squares that holds the queue and that no open edge leaves.
\<close>

lemma board_get_Some: "board_get b y x = Some c \<Longrightarrow> c = (x, y) \<and> c \<in> cells b"
  by (auto simp: board_get_def cells_def split: if_splits)

lemma square_at_cells: "square_at b a d = Some c \<Longrightarrow> c \<in> cells b"
  by (cases a; cases d) (auto dest: board_get_Some)

lemma set_neighbors_along:
  "set (neighbors_along b a ds) =
     {c. \<exists>d\<in>set ds. square_at b a d = Some c \<and> \<not> has_fence_at b a d}"
  by (induction ds) (auto simp: is_connected_with_square_at_def split: option.splits)

lemma set_cardinal_neighbors:
  "set (cardinal_neighbors b a) = {c. \<exists>d. square_at b a d = Some c \<and> \<not> has_fence_at b a d}"
proof -
  have "set cardinal_points = UNIV"
    using CardinalPoint.exhaust by (auto simp: cardinal_points_def)
  then show ?thesis
    by (simp add: cardinal_neighbors_def set_neighbors_along)
qed

lemma cardinal_neighbors_cells: "c \<in> set (cardinal_neighbors b a) \<Longrightarrow> c \<in> cells b"
  by (auto simp: set_cardinal_neighbors dest: square_at_cells)

lemma finite_cells: "finite (cells b)"
proof -
  have "cells b \<subseteq> {0..<width b} \<times> {0..<height b}"
    by (auto simp: cells_def)
  then show ?thesis
    by (rule finite_subset) simp
qed


lemma for_loop_sound:
  assumes "for_loop b gs w V Q = Some res"
    and "set Q \<subseteq> R"
    and "neighbor_closed b R"
  shows "case res of Return r \<Rightarrow> r \<and> (\<exists>t\<in>set gs. t \<in> R) | Next (V', Q') \<Rightarrow> set Q' \<subseteq> R"
  using assms
proof (induction b gs w V Q rule: for_loop.induct)
  case (1 b gs visited queue)
  then show ?case by auto
next
  case (2 b gs w visited)
  then show ?case by simp
next
  case (3 b gs w visited sq queue)
  show ?case
  proof (cases "sq \<in> set gs")
    case True
    with "3.prems" show ?thesis by auto
  next
    case notgoal: False
    show ?thesis
    proof (cases "sq \<in> visited")
      case True
      with notgoal "3.prems" "3.IH"(2) show ?thesis by auto
    next
      case False
      have "set (queue @ cardinal_neighbors b sq) \<subseteq> R"
        using "3.prems"(2,3) by (auto simp: neighbor_closed_def)
      with notgoal False "3.prems" "3.IH"(1) show ?thesis by auto
    qed
  qed
qed

lemma while_loop_sound:
  assumes run: "while_loop b gs V Q = Some y"
    and sub: "set Q \<subseteq> R"
    and closed: "neighbor_closed b R"
  shows "y \<and> (\<exists>t\<in>set gs. t \<in> R)"
proof -
  have "set Q \<subseteq> R \<longrightarrow> neighbor_closed b R \<longrightarrow> y \<and> (\<exists>t\<in>set gs. t \<in> R)"
  proof (rule while_loop.raw_induct
      [where P = "\<lambda>b gs V Q y. set Q \<subseteq> R \<longrightarrow> neighbor_closed b R \<longrightarrow> y \<and> (\<exists>t\<in>set gs. t \<in> R)",
        OF _ run])
    fix wl :: "board \<Rightarrow> square list \<Rightarrow> square set \<Rightarrow> square list \<Rightarrow> bool option"
      and b gs V Q y
    assume IH: "\<And>b gs V Q y. wl b gs V Q = Some y \<Longrightarrow>
        set Q \<subseteq> R \<longrightarrow> neighbor_closed b R \<longrightarrow> y \<and> (\<exists>t\<in>set gs. t \<in> R)"
      and body: "(if queue_truth Q then
          (case for_loop b gs (length Q) V Q of
             None \<Rightarrow> None
           | Some (Return r) \<Rightarrow> Some r
           | Some (Next (visited', queue')) \<Rightarrow> wl b gs visited' queue')
        else Some False) = Some y"
    show "set Q \<subseteq> R \<longrightarrow> neighbor_closed b R \<longrightarrow> y \<and> (\<exists>t\<in>set gs. t \<in> R)"
    proof (intro impI)
      assume sub: "set Q \<subseteq> R" and closed: "neighbor_closed b R"
      from body obtain res where
        res: "for_loop b gs (length Q) V Q = Some res"
        by (auto simp: queue_truth_def split: option.splits)
      note snd = for_loop_sound [OF res sub closed]
      show "y \<and> (\<exists>t\<in>set gs. t \<in> R)"
      proof (cases res)
        case (Return r)
        with res body snd show ?thesis
          by (simp add: queue_truth_def)
      next
        case (Next st)
        obtain V' Q' where st: "st = (V', Q')" by (cases st)
        with Next res body have "wl b gs V' Q' = Some y"
          by (simp add: queue_truth_def)
        moreover from snd Next st have "set Q' \<subseteq> R" by simp
        ultimately show ?thesis
          using IH closed by blast
      qed
    qed
  qed
  with sub closed show ?thesis by blast
qed

lemma while_loop_never_False: "while_loop b gs V Q \<noteq> Some False"
proof
  assume "while_loop b gs V Q = Some False"
  from while_loop_sound [OF this, of UNIV] show False
    by (simp add: neighbor_closed_def)
qed

text \<open>
  Completeness: while the invariant holds the queue is not empty, every pass of the inner
  loop either returns or visits a new square, and the squares are finitely many.
\<close>

lemma avoiding_shift:
  assumes "(q, t) \<in> (avoiding b V)\<^sup>*" and "q \<notin> V" and "t \<noteq> sq"
  shows "(q \<noteq> sq \<and> (q, t) \<in> (avoiding b (insert sq V))\<^sup>*)
       \<or> (\<exists>n\<in>set (cardinal_neighbors b sq).
             n \<notin> insert sq V \<and> (n, t) \<in> (avoiding b (insert sq V))\<^sup>*)"
  using assms
proof (induction rule: converse_rtrancl_induct)
  case base
  then show ?case by simp
next
  case (step q q1)
  from step.hyps(1) have e: "q1 \<in> set (cardinal_neighbors b q)" "q \<notin> V" "q1 \<notin> V"
    by (auto simp: avoiding_def)
  from step.IH [OF e(3) step.prems(2)]
  show ?case
  proof
    assume far: "q1 \<noteq> sq \<and> (q1, t) \<in> (avoiding b (insert sq V))\<^sup>*"
    show ?thesis
    proof (cases "q = sq")
      case True
      with e far show ?thesis by auto
    next
      case False
      with e far have "(q, q1) \<in> avoiding b (insert sq V)"
        by (auto simp: avoiding_def)
      with far False show ?thesis
        by (blast intro: converse_rtrancl_into_rtrancl)
    qed
  next
    assume "\<exists>n\<in>set (cardinal_neighbors b sq).
             n \<notin> insert sq V \<and> (n, t) \<in> (avoiding b (insert sq V))\<^sup>*"
    then show ?thesis ..
  qed
qed

lemma frontier_ok_visit:
  assumes ok: "frontier_ok b gs V (sq # Q)" and ng: "sq \<notin> set gs" and nv: "sq \<notin> V"
  shows "frontier_ok b gs (insert sq V) (Q @ cardinal_neighbors b sq)"
proof -
  from ok obtain q t where q: "q \<in> set (sq # Q)" and t: "t \<in> set gs"
    and qV: "q \<notin> V" and path: "(q, t) \<in> (avoiding b V)\<^sup>*"
    unfolding frontier_ok_def by blast
  from t ng have "t \<noteq> sq" by auto
  from avoiding_shift [OF path qV this]
  show ?thesis
  proof
    assume "q \<noteq> sq \<and> (q, t) \<in> (avoiding b (insert sq V))\<^sup>*"
    with q qV t show ?thesis
      unfolding frontier_ok_def by auto
  next
    assume "\<exists>n\<in>set (cardinal_neighbors b sq).
             n \<notin> insert sq V \<and> (n, t) \<in> (avoiding b (insert sq V))\<^sup>*"
    with t show ?thesis
      unfolding frontier_ok_def by auto
  qed
qed

lemma frontier_ok_skip:
  assumes "frontier_ok b gs V (sq # Q)" and "sq \<in> V"
  shows "frontier_ok b gs V Q"
  using assms unfolding frontier_ok_def by auto

lemma frontier_ok_nonempty: "frontier_ok b gs V Q \<Longrightarrow> Q \<noteq> []"
  by (auto simp: frontier_ok_def)

lemma for_loop_progress:
  assumes "w \<le> length Q" and "V \<subseteq> U" and "set Q \<subseteq> U" and "cells b \<subseteq> U"
    and "frontier_ok b gs V Q"
  shows "for_loop b gs w V Q = Some (Return True)
       \<or> (\<exists>V' Q'. for_loop b gs w V Q = Some (Next (V', Q'))
            \<and> V \<subseteq> V' \<and> V' \<subseteq> U \<and> set Q' \<subseteq> U \<and> frontier_ok b gs V' Q'
            \<and> (V' = V \<longrightarrow> Q' = drop w Q))"
  using assms
proof (induction b gs w V Q rule: for_loop.induct)
  case (1 b gs visited queue)
  then show ?case by simp
next
  case (2 b gs w visited)
  then show ?case by simp
next
  case (3 b gs w visited sq queue)
  show ?case
  proof (cases "sq \<in> set gs")
    case True
    then show ?thesis by simp
  next
    case ng: False
    show ?thesis
    proof (cases "sq \<in> visited")
      case True
      from "3.prems"(5) True have ok: "frontier_ok b gs visited queue"
        by (rule frontier_ok_skip)
      from "3.IH"(2) [OF ng _ _ "3.prems"(2) _ "3.prems"(4) ok] True "3.prems"(1,3)
      show ?thesis using ng True by auto
    next
      case False
      from "3.prems"(5) ng False
      have ok: "frontier_ok b gs (insert sq visited) (queue @ cardinal_neighbors b sq)"
        by (rule frontier_ok_visit)
      have sub: "set (queue @ cardinal_neighbors b sq) \<subseteq> U"
        using "3.prems"(3,4) by (auto dest: cardinal_neighbors_cells)
      have vs: "insert sq visited \<subseteq> U"
        using "3.prems"(2,3) by auto
      have len: "w \<le> length (queue @ cardinal_neighbors b sq)"
        using "3.prems"(1) by simp
      from "3.IH"(1) [OF ng False len vs sub "3.prems"(4) ok]
      show ?thesis using ng False by auto
    qed
  qed
qed

lemma while_loop_complete:
  assumes "finite U" and "cells b \<subseteq> U"
  shows "V \<subseteq> U \<Longrightarrow> set Q \<subseteq> U \<Longrightarrow> frontier_ok b gs V Q
           \<Longrightarrow> while_loop b gs V Q = Some True"
proof (induction "card (U - V)" arbitrary: V Q rule: less_induct)
  case less
  from for_loop_progress [OF le_refl less.prems(1,2) assms(2) less.prems(3)]
  show ?case
  proof
    assume "for_loop b gs (length Q) V Q = Some (Return True)"
    then show ?thesis
      by (subst while_loop.simps) (simp add: queue_truth_def)
  next
    assume "\<exists>V' Q'. for_loop b gs (length Q) V Q = Some (Next (V', Q'))
            \<and> V \<subseteq> V' \<and> V' \<subseteq> U \<and> set Q' \<subseteq> U \<and> frontier_ok b gs V' Q'
            \<and> (V' = V \<longrightarrow> Q' = drop (length Q) Q)"
    then obtain V' Q' where
      run: "for_loop b gs (length Q) V Q = Some (Next (V', Q'))"
      and mono: "V \<subseteq> V'" and V': "V' \<subseteq> U" and Q': "set Q' \<subseteq> U"
      and ok: "frontier_ok b gs V' Q'" and same: "V' = V \<longrightarrow> Q' = drop (length Q) Q"
      by blast
    from ok have "Q' \<noteq> []" by (rule frontier_ok_nonempty)
    with same have "V' \<noteq> V" by auto
    with mono have "V \<subset> V'" by blast
    with V' have "U - V' \<subset> U - V" by blast
    with assms(1) have "card (U - V') < card (U - V)"
      by (intro psubset_card_mono) auto
    from less.hyps [OF this V' Q' ok] run show ?thesis
      by (subst while_loop.simps) (simp add: queue_truth_def)
  qed
qed

lemma reachable_frontier_ok:
  "reachable b s gs \<Longrightarrow> frontier_ok b gs {} [s]"
proof -
  have "avoiding b {} = open_edge b"
    by (auto simp: avoiding_def open_edge_def)
  then show "reachable b s gs \<Longrightarrow> frontier_ok b gs {} [s]"
    by (auto simp: reachable_def frontier_ok_def)
qed

lemma open_edge_closed: "neighbor_closed b {c. (s, c) \<in> (open_edge b)\<^sup>*}"
  by (auto simp: neighbor_closed_def open_edge_def intro: rtrancl_into_rtrancl)

lemma while_loop_reachable:
  "while_loop b gs {} [s] = Some True \<longleftrightarrow> reachable b s gs"
proof
  assume "while_loop b gs {} [s] = Some True"
  from while_loop_sound [OF this _ open_edge_closed [of b s]]
  show "reachable b s gs" by (auto simp: reachable_def)
next
  assume r: "reachable b s gs"
  have "finite (insert s (cells b))" by (simp add: finite_cells)
  from while_loop_complete [OF this _ _ _ reachable_frontier_ok [OF r]]
  show "while_loop b gs {} [s] = Some True" by auto
qed

lemma while_loop_unreachable:
  "while_loop b gs {} [s] = None \<longleftrightarrow> \<not> reachable b s gs"
proof -
  have "while_loop b gs {} [s] = None \<or> while_loop b gs {} [s] = Some True"
    using while_loop_never_False [of b gs "{}" "[s]"]
    by (cases "while_loop b gs {} [s]") auto
  with while_loop_reachable [of b gs s] show ?thesis by auto
qed

text \<open>An open path cannot leave a set of squares that no open edge leaves.\<close>

lemma reachable_closed:
  assumes "reachable b s gs" and "s \<in> R" and "neighbor_closed b R"
  shows "\<exists>t\<in>set gs. t \<in> R"
proof -
  from assms(1) obtain t where t: "t \<in> set gs" and path: "(s, t) \<in> (open_edge b)\<^sup>*"
    unfolding reachable_def by blast
  from path assms(2) have "t \<in> R"
  proof (induction rule: rtrancl_induct)
    case base
    then show ?case .
  next
    case (step c d)
    with assms(3) show ?case
      by (auto simp: neighbor_closed_def open_edge_def)
  qed
  with t show ?thesis by blast
qed

lemma can_player_reach_goal_iff:
  "can_player_reach_goal g p =
     (if reachable (board g) (pawn p) (goals p) then Some True else None)"
  using while_loop_reachable [of "board g" "goals p" "pawn p"]
    while_loop_unreachable [of "board g" "goals p" "pawn p"]
  by (simp add: can_player_reach_goal_def)

lemma board_start: "board start = empty_board 9 9"
  by (simp add: start_def Let_def)

lemma players_start:
  "players start =
     [\<lparr>remaining_fences = 10, pawn = (4, 0), goals = map (\<lambda>x. (x, 8)) [0 .. 8]\<rparr>,
      \<lparr>remaining_fences = 10, pawn = (4, 8), goals = map (\<lambda>x. (x, 0)) [0 .. 8]\<rparr>]"
  by (simp add: start_def Let_def get_row_def empty_board_def)

lemma sealed_flags:
  "has_horizontal_fence (board sealed) (x, y) \<longleftrightarrow> y = 3 \<and> x \<in> {0, 2, 4, 6, 8}"
  by (auto simp: sealed_def walled_def board_start empty_board_def place_horizontal_fence_def)

lemma sealed_dims: "width (board sealed) = 9" "height (board sealed) = 9"
  by (simp_all add: sealed_def walled_def board_start empty_board_def place_horizontal_fence_def)

lemma sealed_south_fence:
  assumes "0 \<le> x" and "x < 9"
  shows "south_fence (board sealed) (x, 3)"
proof -
  from assms have "x \<in> {0, 1, 2, 3, 4, 5, 6, 7, 8}" by auto
  then show ?thesis
    by (auto simp: south_fence_def board_get_def sealed_flags sealed_dims)
qed

lemma upper_rows_closed: "neighbor_closed (board sealed) upper_rows"
  unfolding neighbor_closed_def
proof (intro ballI subsetI)
  fix a c
  assume a: "a \<in> upper_rows" and c: "c \<in> set (cardinal_neighbors (board sealed) a)"
  obtain x y where axy: "a = (x, y)" by (cases a)
  from a axy have bounds: "0 \<le> x" "x < 9" "0 \<le> y" "y \<le> 3"
    by (auto simp: upper_rows_def)
  from c obtain d where sq: "square_at (board sealed) a d = Some c"
    and unfenced: "\<not> has_fence_at (board sealed) a d"
    by (auto simp: set_cardinal_neighbors)
  show "c \<in> upper_rows"
  proof (cases d)
    case SOUTH
    with unfenced axy bounds sealed_south_fence [of x] have "y \<noteq> 3" by auto
    with SOUTH sq axy bounds show ?thesis
      by (auto simp: board_get_def upper_rows_def sealed_dims split: if_splits)
  qed (use sq axy bounds in \<open>auto simp: board_get_def upper_rows_def sealed_dims split: if_splits\<close>)
qed

lemma sealed_players:
  "players sealed ! 0 = \<lparr>remaining_fences = 10, pawn = (4, 0), goals = map (\<lambda>x. (x, 8)) [0 .. 8]\<rparr>"
  by (simp add: sealed_def walled_def players_start)

lemma sealed_unreachable:
  "\<not> reachable (board sealed) (pawn (players sealed ! 0)) (goals (players sealed ! 0))"
proof
  assume "reachable (board sealed) (pawn (players sealed ! 0)) (goals (players sealed ! 0))"
  then have "reachable (board sealed) (4, 0) (map (\<lambda>x. (x, 8)) [0 .. 8])"
    by (simp add: sealed_players)
  from reachable_closed [OF this _ upper_rows_closed]
  show False by (auto simp: upper_rows_def)
qed

section \<open>The search on a board with a sealed row\<close>

text \<open>
  C2. The claim: the reachability check terminates for every board, start square and
  goal set, returning true when a goal is reachable and false once the frontier is
  exhausted. On the code the second half fails: in the position \<open>sealed\<close> (fences
  \<open>a4h c4h e4h g4h i4h\<close>, first pawn on \<open>e1\<close>, goal row 9) no goal is reachable, the
  queue runs empty, and the loop \<open>while queue:\<close> goes on for ever; the search returns
  nothing, in particular not \<open>False\<close>.
\<close>

theorem search_does_not_return:
  "can_player_reach_goal sealed (players sealed ! 0) = None"
  using sealed_unreachable by (simp add: can_player_reach_goal_iff)

section \<open>Fence validation and the no-trap rule\<close>

text \<open>
  C1. The claim: after any fence move whose \<open>check_valid\<close> returned true has been
  applied, every player still has an open path from its pawn to its goal row. On the
  code it fails: \<open>check_valid\<close> searches the board as it is before the fence is placed.
  In the position \<open>walled\<close> the fence \<open>i4h\<close> is accepted, applying it gives \<open>sealed\<close>,
  and there the first player has no open path to its goal row.
\<close>

theorem accepted_fence_traps:
  "check_valid walled (Move_PlaceFenceHorizontally (8, 3)) = Some (Inr True)
   \<and> apply_move walled (Move_PlaceFenceHorizontally (8, 3)) = Inr sealed
   \<and> \<not> reachable (board sealed) (pawn (players sealed ! 0)) (goals (players sealed ! 0))"
proof -
  have "check_valid walled (Move_PlaceFenceHorizontally (8, 3)) = Some (Inr True)"
    by code_simp
  moreover have "apply_move walled (Move_PlaceFenceHorizontally (8, 3)) = Inr sealed"
    by (simp add: sealed_def)
  ultimately show ?thesis using sealed_unreachable by simp
qed

section \<open>Fences and the edges they block\<close>

lemma in_cells: "(x, y) \<in> cells b \<longleftrightarrow> 0 \<le> x \<and> x < width b \<and> 0 \<le> y \<and> y < height b"
  by (simp add: cells_def)

lemma place_dims [simp]:
  "width (place_horizontal_fence b sq) = width b"
  "height (place_horizontal_fence b sq) = height b"
  "width (place_vertical_fence b sq) = width b"
  "height (place_vertical_fence b sq) = height b"
  by (simp_all add: place_horizontal_fence_def place_vertical_fence_def)

lemma place_flags [simp]:
  "has_horizontal_fence (place_horizontal_fence b sq) a \<longleftrightarrow> a = sq \<or> has_horizontal_fence b a"
  "has_vertical_fence (place_horizontal_fence b sq) a \<longleftrightarrow> has_vertical_fence b a"
  "has_vertical_fence (place_vertical_fence b sq) a \<longleftrightarrow> a = sq \<or> has_vertical_fence b a"
  "has_horizontal_fence (place_vertical_fence b sq) a \<longleftrightarrow> has_horizontal_fence b a"
  by (simp_all add: place_horizontal_fence_def place_vertical_fence_def)

lemma board_get_place [simp]:
  "board_get (place_horizontal_fence b sq) y x = board_get b y x"
  "board_get (place_vertical_fence b sq) y x = board_get b y x"
  by (simp_all add: board_get_def)

lemma square_at_place [simp]:
  "square_at (place_horizontal_fence b sq) a d = square_at b a d"
  "square_at (place_vertical_fence b sq) a d = square_at b a d"
  by (cases a; cases d; simp)+

lemma fence_after_vertical:
  assumes "(x, y) \<in> cells b" and "a \<in> cells b"
  shows "has_fence_at (place_vertical_fence b (x, y)) a d \<longleftrightarrow>
           has_fence_at b a d
           \<or> d = EAST \<and> (a = (x, y) \<or> a = (x, y + 1))
           \<or> d = WEST \<and> (a = (x + 1, y) \<or> a = (x + 1, y + 1))"
proof -
  obtain u v where a: "a = (u, v)" by (cases a)
  show ?thesis
    using assms unfolding a in_cells
    by (cases d)
      (auto simp: west_fence_def east_fence_def north_fence_def south_fence_def
        board_get_def split: option.splits if_splits)
qed

lemma fence_after_horizontal:
  assumes "(x, y) \<in> cells b" and "a \<in> cells b"
  shows "has_fence_at (place_horizontal_fence b (x, y)) a d \<longleftrightarrow>
           has_fence_at b a d
           \<or> d = SOUTH \<and> (a = (x, y) \<or> a = (x + 1, y))
           \<or> d = NORTH \<and> (a = (x, y + 1) \<or> a = (x + 1, y + 1))"
proof -
  obtain u v where a: "a = (u, v)" by (cases a)
  show ?thesis
    using assms unfolding a in_cells
    by (cases d)
      (auto simp: west_fence_def east_fence_def north_fence_def south_fence_def
        board_get_def split: option.splits if_splits)
qed

lemma has_fence_at_mono:
  assumes "has_fence_at b a d"
  shows "has_fence_at (place_horizontal_fence b sq) a d"
    and "has_fence_at (place_vertical_fence b sq) a d"
proof -
  obtain u v where a: "a = (u, v)" by (cases a)
  show "has_fence_at (place_horizontal_fence b sq) a d"
    using assms unfolding a
    by (cases d)
      (auto simp: west_fence_def east_fence_def north_fence_def south_fence_def
        board_get_def split: option.splits if_splits)
  show "has_fence_at (place_vertical_fence b sq) a d"
    using assms unfolding a
    by (cases d)
      (auto simp: west_fence_def east_fence_def north_fence_def south_fence_def
        board_get_def split: option.splits if_splits)
qed

lemma open_edge_mono:
  "open_edge (place_horizontal_fence b sq) \<subseteq> open_edge b"
  "open_edge (place_vertical_fence b sq) \<subseteq> open_edge b"
  by (auto simp: open_edge_def set_cardinal_neighbors dest: has_fence_at_mono)

lemma reachable_mono:
  "reachable (place_horizontal_fence b sq) s gs \<Longrightarrow> reachable b s gs"
  "reachable (place_vertical_fence b sq) s gs \<Longrightarrow> reachable b s gs"
  using rtrancl_mono [OF open_edge_mono(1) [of b sq]] rtrancl_mono [OF open_edge_mono(2) [of b sq]]
  by (auto simp: reachable_def)

text \<open>
  C8. Reachability can only shrink when a fence flag is set: if the search finds a goal
  on the board with one more horizontal or vertical flag (on any square), it finds one
  on the board without it. This holds for every game, every square and every player
  record, that is for every start square and goal list.
\<close>

theorem more_fences_reach_less:
  "(can_player_reach_goal (g\<lparr>board := place_horizontal_fence (board g) sq\<rparr>) p = Some True
      \<longrightarrow> can_player_reach_goal g p = Some True)
   \<and> (can_player_reach_goal (g\<lparr>board := place_vertical_fence (board g) sq\<rparr>) p = Some True
      \<longrightarrow> can_player_reach_goal g p = Some True)"
  by (auto simp: can_player_reach_goal_iff split: if_splits dest: reachable_mono)

theorem more_fences_reach_less_witness:
  "can_player_reach_goal (start\<lparr>board := place_horizontal_fence (board start) (4, 4)\<rparr>)
       (players start ! 0) = Some True
   \<and> can_player_reach_goal (start\<lparr>board := place_vertical_fence (board start) (4, 4)\<rparr>)
       (players start ! 0) = Some True
   \<and> can_player_reach_goal start (players start ! 0) = Some True"
proof -
  have h: "can_player_reach_goal (start\<lparr>board := place_horizontal_fence (board start) (4, 4)\<rparr>)
       (players start ! 0) = Some True"
    by code_simp
  have v: "can_player_reach_goal (start\<lparr>board := place_vertical_fence (board start) (4, 4)\<rparr>)
       (players start ! 0) = Some True"
    by code_simp
  from h v more_fences_reach_less [of start "(4, 4)" "players start ! 0"]
  show ?thesis by blast
qed

text \<open>
  C3. The claim places the blocked edges on the wrong side of the anchor: it says a
  vertical flag on \<open>(x, y)\<close> blocks the edges between columns \<open>x - 1\<close> and \<open>x\<close> in
  rows \<open>y\<close> and \<open>y - 1\<close>, and a horizontal flag the edges between rows \<open>y - 1\<close> and
  \<open>y\<close> in columns \<open>x\<close> and \<open>x - 1\<close>. The four fence properties read the flags of the
  square itself and of its north or west neighbour, so for squares \<open>(x, y)\<close> and \<open>a\<close> of
  the board a vertical flag on \<open>(x, y)\<close> blocks exactly the edges between columns \<open>x\<close>
  and \<open>x + 1\<close> in rows \<open>y\<close> and \<open>y + 1\<close> (seen as the east fence of \<open>(x, y)\<close> and
  \<open>(x, y + 1)\<close> and the west fence of \<open>(x + 1, y)\<close> and \<open>(x + 1, y + 1)\<close>), and a
  horizontal flag exactly the edges between rows \<open>y\<close> and \<open>y + 1\<close> in columns \<open>x\<close> and
  \<open>x + 1\<close>; every other answer of \<open>has_fence_at\<close> is unchanged.
\<close>

theorem fence_geometry:
  assumes "(x, y) \<in> cells b" and "a \<in> cells b"
  shows "(has_fence_at (place_vertical_fence b (x, y)) a d \<longleftrightarrow>
            has_fence_at b a d
            \<or> d = EAST \<and> (a = (x, y) \<or> a = (x, y + 1))
            \<or> d = WEST \<and> (a = (x + 1, y) \<or> a = (x + 1, y + 1)))
       \<and> (has_fence_at (place_horizontal_fence b (x, y)) a d \<longleftrightarrow>
            has_fence_at b a d
            \<or> d = SOUTH \<and> (a = (x, y) \<or> a = (x + 1, y))
            \<or> d = NORTH \<and> (a = (x, y + 1) \<or> a = (x + 1, y + 1)))"
  using fence_after_vertical [OF assms] fence_after_horizontal [OF assms] by blast

theorem fence_geometry_witness:
  "(4, 4) \<in> cells (empty_board 9 9) \<and> (5, 5) \<in> cells (empty_board 9 9)
   \<and> has_fence_at (place_vertical_fence (empty_board 9 9) (4, 4)) (5, 5) WEST
   \<and> \<not> has_fence_at (place_horizontal_fence (empty_board 9 9) (4, 4)) (5, 5) WEST"
proof -
  have c: "(4, 4) \<in> cells (empty_board 9 9)" "(5, 5) \<in> cells (empty_board 9 9)"
    by (simp_all add: cells_def empty_board_def)
  have "\<not> has_fence_at (empty_board 9 9) (5, 5) WEST"
    by (simp add: west_fence_def empty_board_def board_get_def)
  with c fence_geometry [OF c, of WEST] show ?thesis by simp
qed

theorem fence_geometry_counterexample:
  "\<not> has_fence_at (place_vertical_fence (empty_board 9 9) (4, 4)) (4, 4) WEST
   \<and> has_fence_at (place_vertical_fence (empty_board 9 9) (4, 4)) (4, 4) EAST
   \<and> \<not> has_fence_at (place_horizontal_fence (empty_board 9 9) (4, 4)) (4, 4) NORTH
   \<and> has_fence_at (place_horizontal_fence (empty_board 9 9) (4, 4)) (4, 4) SOUTH"
  by (simp add: west_fence_def east_fence_def north_fence_def south_fence_def
      empty_board_def board_get_def place_horizontal_fence_def place_vertical_fence_def)

section \<open>Pawn moves\<close>

lemma set_orthogonal_moves:
  "set (orthogonal_moves b sq ds) =
     {c. \<exists>d\<in>set ds. is_connected_with_square_at b sq d \<and> square_at b sq d = Some c}"
  by (induction ds) (auto split: option.splits)

lemma moves_toward_possible:
  "c \<in> set (moves_toward g sq d) \<Longrightarrow> c \<in> possible_moves g sq"
proof -
  have "d \<in> set cardinal_points"
    by (cases d) (simp_all add: cardinal_points_def)
  then show "c \<in> set (moves_toward g sq d) \<Longrightarrow> c \<in> possible_moves g sq"
    by (auto simp: possible_moves_def)
qed

lemma square_at_Some:
  "square_at b (x, y) d = Some c \<Longrightarrow>
     c = (case d of WEST \<Rightarrow> (x - 1, y) | EAST \<Rightarrow> (x + 1, y)
                  | NORTH \<Rightarrow> (x, y - 1) | SOUTH \<Rightarrow> (x, y + 1))"
  by (cases d) (auto simp: board_get_def split: if_splits)

lemma moves_toward_step:
  assumes "c \<in> set (moves_toward g P D')" and "square_at (board g) P D' = Some sq1"
    and "\<not> has_pawn g sq1"
  shows "c = sq1"
  using assms by (auto simp: moves_toward_def split: if_splits)

lemma moves_toward_None:
  "square_at (board g) P D' = None \<Longrightarrow> moves_toward g P D' = []"
  by (simp add: moves_toward_def is_connected_with_square_at_def)

lemma possible_moves_iff:
  "c \<in> possible_moves g P \<longleftrightarrow> (\<exists>d. c \<in> set (moves_toward g P d))"
proof -
  have "set cardinal_points = UNIV"
    using CardinalPoint.exhaust by (auto simp: cardinal_points_def)
  then show ?thesis by (auto simp: possible_moves_def)
qed

lemma two_players_no_diagonal:
  assumes cur: "current_player g = Inr p"
    and two: "length (players g) = 2"
    and conn: "is_connected_with_square_at (board g) (pawn p) D"
    and sqN: "square_at (board g) (pawn p) D = Some N"
    and occ: "has_pawn g N"
    and conn2: "is_connected_with_square_at (board g) N D"
    and sqF: "square_at (board g) N D = Some F"
    and side: "side \<in> set (orthogonal_points D)"
    and sqT: "square_at (board g) N side = Some T"
  shows "T \<notin> possible_moves g (pawn p)"
proof
  assume "T \<in> possible_moves g (pawn p)"
  then obtain D' where T: "T \<in> set (moves_toward g (pawn p) D')"
    by (auto simp: possible_moves_iff)
  obtain x y where P: "pawn p = (x, y)" by (cases "pawn p")
  obtain u v where N: "N = (u, v)" by (cases N)
  from two obtain a b where ps: "players g = [a, b]"
    by (cases "players g"; cases "tl (players g)") auto
  from cur ps have "p = a \<or> p = b"
    by (auto simp: current_player_def current_index_def nth_Cons' split: option.splits if_splits)
  moreover from sqN P have NP: "N \<noteq> pawn p"
    by (cases D) (auto simp: board_get_def split: if_splits)
  moreover from occ ps have "N = pawn a \<or> N = pawn b"
    by (auto simp: has_pawn_def)
  ultimately have pawns: "\<And>sq. has_pawn g sq \<longleftrightarrow> sq = pawn p \<or> sq = N"
    using ps by (auto simp: has_pawn_def)
  show False
  proof (cases "D' = D")
    case True
    with T conn sqN occ conn2 sqF have "T = F"
      by (simp add: moves_toward_def)
    with sqF sqT side N show False
      using square_at_Some [of "board g" u v D F] square_at_Some [of "board g" u v side T]
      by (cases D; cases side) auto
  next
    case False
    show False
    proof (cases "square_at (board g) (pawn p) D'")
      case None
      with T show False by (simp add: moves_toward_None)
    next
      case (Some sq1)
      from Some sqN False P have "sq1 \<noteq> N"
        using square_at_Some [of "board g" x y D' sq1] square_at_Some [of "board g" x y D N]
        by (cases D; cases D') auto
      moreover from Some P have "sq1 \<noteq> pawn p"
        using square_at_Some [of "board g" x y D' sq1] by (cases D') auto
      ultimately have "\<not> has_pawn g sq1" by (simp add: pawns)
      from moves_toward_step [OF T Some this] have "T = sq1" .
      with Some sqN sqT side P N show False
        using square_at_Some [of "board g" x y D' sq1] square_at_Some [of "board g" x y D N]
          square_at_Some [of "board g" u v side T]
        by (cases D; cases side; cases D') auto
    qed
  qed
qed

text \<open>
  C4. Jump exclusivity: when the edge from the mover's square towards \<open>D\<close> is open,
  the neighbour \<open>N\<close> in that direction holds a pawn, and the edge from \<open>N\<close> onward in
  direction \<open>D\<close> is open with the square \<open>F\<close> behind it, then the iteration of
  \<open>check_valid\<close> for \<open>D\<close> adds \<open>F\<close> and nothing else (no square beside \<open>N\<close>), \<open>F\<close>
  is in the destination set, and the pawn move to \<open>F\<close> is valid. In a game of two
  players, as \<open>_setup\<close> creates it, no other direction adds a square beside \<open>N\<close>
  either, so the destination set holds no diagonal square reached through \<open>N\<close>.
\<close>

theorem straight_jump_only:
  assumes "current_player g = Inr p"
    and "is_connected_with_square_at (board g) (pawn p) D"
    and "square_at (board g) (pawn p) D = Some N"
    and "has_pawn g N"
    and "is_connected_with_square_at (board g) N D"
    and "square_at (board g) N D = Some F"
  shows "moves_toward g (pawn p) D = [F]
       \<and> F \<in> possible_moves g (pawn p)
       \<and> check_valid g (Move_MovePawn F) = Some (Inr True)
       \<and> (length (players g) = 2 \<longrightarrow>
            (\<forall>side\<in>set (orthogonal_points D). \<forall>T.
               square_at (board g) N side = Some T \<longrightarrow> T \<notin> possible_moves g (pawn p)))"
proof -
  from assms(2-6) have m: "moves_toward g (pawn p) D = [F]"
    by (simp add: moves_toward_def)
  then have "F \<in> set (moves_toward g (pawn p) D)" by simp
  then have "F \<in> possible_moves g (pawn p)" by (rule moves_toward_possible)
  with m assms(1) have "moves_toward g (pawn p) D = [F]
       \<and> F \<in> possible_moves g (pawn p)
       \<and> check_valid g (Move_MovePawn F) = Some (Inr True)"
    by simp
  with two_players_no_diagonal [OF assms(1) _ assms(2-6)] show ?thesis
    by blast
qed

lemma facing_current: "current_player facing = Inr ((players start ! 0)\<lparr>pawn := (4, 3)\<rparr>)"
  by (simp add: current_player_def current_index_def facing_def)

lemma board_facing: "board facing = empty_board 9 9"
  by (simp add: facing_def board_start)

theorem straight_jump_only_witness:
  "current_player facing = Inr ((players start ! 0)\<lparr>pawn := (4, 3)\<rparr>)
   \<and> is_connected_with_square_at (board facing) (4, 3) SOUTH
   \<and> square_at (board facing) (4, 3) SOUTH = Some (4, 4)
   \<and> has_pawn facing (4, 4)
   \<and> is_connected_with_square_at (board facing) (4, 4) SOUTH
   \<and> square_at (board facing) (4, 4) SOUTH = Some (4, 5)
   \<and> moves_toward facing (4, 3) SOUTH = [(4, 5)]
   \<and> (4, 5) \<in> possible_moves facing (4, 3)
   \<and> check_valid facing (Move_MovePawn (4, 5)) = Some (Inr True)
   \<and> length (players facing) = 2
   \<and> square_at (board facing) (4, 4) WEST = Some (3, 4)
   \<and> (3, 4) \<notin> possible_moves facing (4, 3)"
proof -
  have a: "is_connected_with_square_at (board facing) (pawn ((players start ! 0)\<lparr>pawn := (4, 3)\<rparr>)) SOUTH"
    "square_at (board facing) (pawn ((players start ! 0)\<lparr>pawn := (4, 3)\<rparr>)) SOUTH = Some (4, 4)"
    "is_connected_with_square_at (board facing) (4, 4) SOUTH"
    "square_at (board facing) (4, 4) SOUTH = Some (4, 5)"
    by (simp_all add: board_facing is_connected_with_square_at_def south_fence_def
        board_get_def empty_board_def)
  have b: "has_pawn facing (4, 4)"
    by (simp add: has_pawn_def facing_def)
  have c: "length (players facing) = 2" "WEST \<in> set (orthogonal_points SOUTH)"
    "square_at (board facing) (4, 4) WEST = Some (3, 4)"
    by (simp_all add: facing_def board_start board_get_def empty_board_def)
  from straight_jump_only [OF facing_current a(1,2) b a(3,4)] c
  have "(3, 4) \<notin> possible_moves facing (pawn ((players start ! 0)\<lparr>pawn := (4, 3)\<rparr>))"
    by blast
  with straight_jump_only [OF facing_current a(1,2) b a(3,4)] facing_current a b c
  show ?thesis by simp
qed

text \<open>
  C5. Diagonal enablement. As the claim is written, with no condition on the edge between
  the mover and \<open>N\<close>, it fails: \<open>check_valid\<close> skips a direction whose first edge is
  fenced, so in the position \<open>fenced_off\<close> (fence between the pawns, fence behind the
  second pawn) the square west of \<open>N\<close> is open from \<open>N\<close> and yet is no destination.
  With the edge from the mover's square towards \<open>D\<close> open, it holds: if \<open>N\<close> holds a
  pawn and has no open edge onward in direction \<open>D\<close>, every square reached from \<open>N\<close>
  over an open edge in a direction orthogonal to \<open>D\<close> is in the destination set, and the
  pawn move to it is valid.
\<close>

theorem diagonal_jump:
  assumes "current_player g = Inr p"
    and "is_connected_with_square_at (board g) (pawn p) D"
    and "square_at (board g) (pawn p) D = Some N"
    and "has_pawn g N"
    and "\<not> is_connected_with_square_at (board g) N D"
    and "side \<in> set (orthogonal_points D)"
    and "is_connected_with_square_at (board g) N side"
    and "square_at (board g) N side = Some T"
  shows "T \<in> possible_moves g (pawn p)
       \<and> check_valid g (Move_MovePawn T) = Some (Inr True)"
proof -
  from assms(6-8) have "T \<in> set (orthogonal_moves (board g) N (orthogonal_points D))"
    by (auto simp: set_orthogonal_moves)
  with assms(2-5) have "T \<in> set (moves_toward g (pawn p) D)"
    by (simp add: moves_toward_def)
  then have "T \<in> possible_moves g (pawn p)" by (rule moves_toward_possible)
  with assms(1) show ?thesis by simp
qed

lemma blocked_jump_current:
  "current_player blocked_jump = Inr ((players start ! 0)\<lparr>pawn := (4, 3)\<rparr>)"
  by (simp add: current_player_def current_index_def facing_def blocked_jump_def)

theorem diagonal_jump_witness:
  "current_player blocked_jump = Inr ((players start ! 0)\<lparr>pawn := (4, 3)\<rparr>)
   \<and> is_connected_with_square_at (board blocked_jump) (4, 3) SOUTH
   \<and> square_at (board blocked_jump) (4, 3) SOUTH = Some (4, 4)
   \<and> has_pawn blocked_jump (4, 4)
   \<and> \<not> is_connected_with_square_at (board blocked_jump) (4, 4) SOUTH
   \<and> WEST \<in> set (orthogonal_points SOUTH)
   \<and> is_connected_with_square_at (board blocked_jump) (4, 4) WEST
   \<and> square_at (board blocked_jump) (4, 4) WEST = Some (3, 4)
   \<and> (3, 4) \<in> possible_moves blocked_jump (4, 3)
   \<and> check_valid blocked_jump (Move_MovePawn (3, 4)) = Some (Inr True)"
proof -
  have a: "is_connected_with_square_at (board blocked_jump) (pawn ((players start ! 0)\<lparr>pawn := (4, 3)\<rparr>)) SOUTH"
    "square_at (board blocked_jump) (pawn ((players start ! 0)\<lparr>pawn := (4, 3)\<rparr>)) SOUTH = Some (4, 4)"
    "\<not> is_connected_with_square_at (board blocked_jump) (4, 4) SOUTH"
    "WEST \<in> set (orthogonal_points SOUTH)"
    "is_connected_with_square_at (board blocked_jump) (4, 4) WEST"
    "square_at (board blocked_jump) (4, 4) WEST = Some (3, 4)"
    by (simp_all add: blocked_jump_def board_facing is_connected_with_square_at_def
        south_fence_def west_fence_def board_get_def empty_board_def place_horizontal_fence_def)
  have b: "has_pawn blocked_jump (4, 4)"
    by (simp add: has_pawn_def facing_def blocked_jump_def)
  from diagonal_jump [OF blocked_jump_current a(1,2) b a(3,4,5,6)] blocked_jump_current a b
  show ?thesis by simp
qed

theorem diagonal_jump_counterexample:
  "current_player fenced_off = Inr ((players start ! 0)\<lparr>pawn := (4, 3)\<rparr>)
   \<and> square_at (board fenced_off) (4, 3) SOUTH = Some (4, 4)
   \<and> has_pawn fenced_off (4, 4)
   \<and> \<not> is_connected_with_square_at (board fenced_off) (4, 4) SOUTH
   \<and> is_connected_with_square_at (board fenced_off) (4, 4) WEST
   \<and> square_at (board fenced_off) (4, 4) WEST = Some (3, 4)
   \<and> (3, 4) \<notin> possible_moves fenced_off (4, 3)
   \<and> check_valid fenced_off (Move_MovePawn (3, 4)) = Some (Inr False)"
  by code_simp

section \<open>Parsing move strings\<close>

lemma parse_rejects_other_suffix:
  assumes "3 \<le> length s" and "s ! 2 \<noteq> CHR ''h''" and "s ! 2 \<noteq> CHR ''v''"
  shows "\<exists>e. parse g s = Inl e"
  using assms by (auto simp: parse_def split: sum.splits)

lemma parse_rejects_beyond:
  assumes "width (board g) \<le> int (of_char c) - 97 \<or> height (board g) < int (of_char r) - 48"
  shows "parse g (c # r # rest) = Inl IndexError \<or> parse g (c # r # rest) = Inl ValueError"
  using assms
  by (auto simp: parse_def getitem_def int_of_char_def list_index_def Let_def split: sum.splits)

lemma parse_ignores_tail:
  "parse start ''e5hx'' = Inr (Move_PlaceFenceHorizontally (4, 4))"
  by (simp add: parse_def getitem_def int_of_char_def list_index_def board_start empty_board_def)

text \<open>
  C6. The claim: parsing fails whenever the string has a trailing character other than
  \<open>h\<close> or \<open>v\<close>, or its column or row lies outside the grid, and then yields no move on
  a valid square. A third character other than \<open>h\<close> or \<open>v\<close> is rejected
  (\<open>parse_rejects_other_suffix\<close>; what follows the third character is never read,
  \<open>parse_ignores_tail\<close>), and so are columns and rows beyond the last
  (\<open>parse_rejects_beyond\<close>). Below the first the claim fails: \<open>table[y][x]\<close> takes
  a negative index from the end, so row \<open>0\<close> is read as row 9 and a column letter
  before \<open>a\<close> as a column counted from the right, and \<open>parse\<close> returns a move on a
  square of the board.
\<close>

theorem unknown_row_is_parsed:
  "parse start ''e0'' = Inr (Move_MovePawn (4, 8))
   \<and> parse start ''Z5'' = Inr (Move_MovePawn (2, 4))
   \<and> parse start ''e0v'' = Inr (Move_PlaceFenceVertically (4, 8))"
  by (simp add: parse_def getitem_def int_of_char_def list_index_def board_start empty_board_def)

section \<open>Validation and the state\<close>

text \<open>
  The state transformers compute what the functions \<open>for_loop\<close>, \<open>while_loop\<close> and
  \<open>check_valid\<close> compute, and they leave the game and the objects of the other
  validator as they found them.
\<close>

lemma add_moves_frame:
  "the_game (add_moves m sq ds) = the_game m
   \<and> local_visited (add_moves m sq ds) = local_visited m
   \<and> local_queue (add_moves m sq ds) = local_queue m"
  by (induction ds arbitrary: m) simp_all

lemma add_moves_result:
  "local_possible_moves (add_moves m sq ds) =
     local_possible_moves m \<union> set (concat (map (moves_toward (the_game m) sq) ds))"
  by (induction ds arbitrary: m) (auto simp: add_moves_frame)

lemma for_loop_run_pure:
  "map_option (map_flow fst (\<lambda>m'. (local_visited m', local_queue m'))) (for_loop_run m gs w)
     = for_loop (board (the_game m)) gs w (local_visited m) (local_queue m)"
proof (induction w arbitrary: m)
  case 0
  show ?case by simp
next
  case (Suc w)
  show ?case
  proof (cases "local_queue m")
    case Nil
    then show ?thesis by simp
  next
    case (Cons sq rest)
    then show ?thesis
      using Suc [of "m\<lparr>local_queue := rest\<rparr>"]
        Suc [of "m\<lparr>local_visited := insert sq (local_visited m),
                    local_queue := rest @ cardinal_neighbors (board (the_game m)) sq\<rparr>"]
      by (simp add: Let_def)
  qed
qed

lemma for_loop_run_frame:
  "(for_loop_run m gs w = Some (Return (r, m')) \<longrightarrow>
      the_game m' = the_game m \<and> local_possible_moves m' = local_possible_moves m)
   \<and> (for_loop_run m gs w = Some (Next m') \<longrightarrow>
      the_game m' = the_game m \<and> local_possible_moves m' = local_possible_moves m)"
proof (induction w arbitrary: m)
  case 0
  show ?case by auto
next
  case (Suc w)
  show ?case
  proof (cases "local_queue m")
    case Nil
    then show ?thesis by simp
  next
    case (Cons sq rest)
    show ?thesis
    proof (cases "sq \<in> set gs")
      case True
      with Cons show ?thesis by (auto simp: Let_def)
    next
      case ng: False
      show ?thesis
      proof (cases "sq \<in> local_visited m")
        case True
        with Cons ng Suc [of "m\<lparr>local_queue := rest\<rparr>"] show ?thesis
          by (simp add: Let_def)
      next
        case False
        with Cons ng
          Suc [of "m\<lparr>local_visited := insert sq (local_visited m),
                    local_queue := rest @ cardinal_neighbors (board (the_game m)) sq\<rparr>"]
        show ?thesis
          by (simp add: Let_def)
      qed
    qed
  qed
qed

lemma while_loop_run_pure:
  assumes "while_loop_run m gs = Some (r, m')"
  shows "while_loop (board (the_game m)) gs (local_visited m) (local_queue m) = Some r
       \<and> the_game m' = the_game m \<and> local_possible_moves m' = local_possible_moves m"
proof -
  have "while_loop (board (the_game m)) gs (local_visited m) (local_queue m) = Some (fst (r, m'))
      \<and> the_game (snd (r, m')) = the_game m
      \<and> local_possible_moves (snd (r, m')) = local_possible_moves m"
  proof (rule while_loop_run.raw_induct
      [where P = "\<lambda>m gs res. while_loop (board (the_game m)) gs (local_visited m) (local_queue m)
                       = Some (fst res)
                     \<and> the_game (snd res) = the_game m
                     \<and> local_possible_moves (snd res) = local_possible_moves m",
        OF _ assms])
    fix wl :: "memory \<Rightarrow> square list \<Rightarrow> (bool \<times> memory) option" and m gs res
    assume IH: "\<And>m gs res. wl m gs = Some res \<Longrightarrow>
        while_loop (board (the_game m)) gs (local_visited m) (local_queue m) = Some (fst res)
        \<and> the_game (snd res) = the_game m
        \<and> local_possible_moves (snd res) = local_possible_moves m"
      and body: "(if queue_truth (local_queue m) then
          (case for_loop_run m gs (length (local_queue m)) of
             None \<Rightarrow> None
           | Some (Return r) \<Rightarrow> Some r
           | Some (Next m') \<Rightarrow> wl m' gs)
        else Some (False, m)) = Some res"
    from body obtain fl where fl: "for_loop_run m gs (length (local_queue m)) = Some fl"
      by (auto simp: queue_truth_def split: option.splits)
    from for_loop_run_pure [of m gs "length (local_queue m)"] fl
    have pure: "for_loop (board (the_game m)) gs (length (local_queue m)) (local_visited m)
        (local_queue m) = Some (map_flow fst (\<lambda>m'. (local_visited m', local_queue m')) fl)"
      by simp
    have unfold: "while_loop (board (the_game m)) gs (local_visited m) (local_queue m) =
        (case map_flow fst (\<lambda>m'. (local_visited m', local_queue m')) fl of
           Return r \<Rightarrow> Some r
         | Next (visited', queue') \<Rightarrow> while_loop (board (the_game m)) gs visited' queue')"
      by (subst while_loop.simps) (simp only: pure queue_truth_def if_True option.case)
    show "while_loop (board (the_game m)) gs (local_visited m) (local_queue m) = Some (fst res)
        \<and> the_game (snd res) = the_game m
        \<and> local_possible_moves (snd res) = local_possible_moves m"
    proof (cases fl)
      case (Return x)
      with fl body have x: "x = res" by (simp add: queue_truth_def)
      obtain r0 m0 where res: "res = (r0, m0)" by (cases res)
      from for_loop_run_frame [of m gs "length (local_queue m)" r0 m0] fl Return x res
      have "the_game m0 = the_game m \<and> local_possible_moves m0 = local_possible_moves m"
        by simp
      with unfold Return x res show ?thesis by simp
    next
      case (Next m1)
      with fl body have "wl m1 gs = Some res" by (simp add: queue_truth_def)
      note ih = IH [OF this]
      from for_loop_run_frame [of m gs "length (local_queue m)" undefined m1] fl Next
      have "the_game m1 = the_game m \<and> local_possible_moves m1 = local_possible_moves m"
        by simp
      with unfold Next ih show ?thesis by simp
    qed
  qed
  then show ?thesis by simp
qed

lemma while_loop_run_exists:
  assumes "while_loop b gs V Q = Some r"
  shows "board (the_game (m::memory)) = b \<Longrightarrow> local_visited m = V \<Longrightarrow> local_queue m = Q
      \<Longrightarrow> \<exists>m'. while_loop_run m gs = Some (r, m')"
proof -
  have "\<forall>m::memory. board (the_game m) = b \<and> local_visited m = V \<and> local_queue m = Q
          \<longrightarrow> (\<exists>m'. while_loop_run m gs = Some (r, m'))"
  proof (rule while_loop.raw_induct
      [where P = "\<lambda>b gs V Q r. \<forall>m::memory. board (the_game m) = b \<and> local_visited m = V \<and> local_queue m = Q
          \<longrightarrow> (\<exists>m'. while_loop_run m gs = Some (r, m'))", OF _ assms])
    fix wl :: "board \<Rightarrow> square list \<Rightarrow> square set \<Rightarrow> square list \<Rightarrow> bool option"
      and b gs V Q r
    assume IH: "\<And>b gs V Q r. wl b gs V Q = Some r \<Longrightarrow>
        \<forall>m::memory. board (the_game m) = b \<and> local_visited m = V \<and> local_queue m = Q
          \<longrightarrow> (\<exists>m'. while_loop_run m gs = Some (r, m'))"
      and body: "(if queue_truth Q then
          (case for_loop b gs (length Q) V Q of
             None \<Rightarrow> None
           | Some (Return r) \<Rightarrow> Some r
           | Some (Next (visited', queue')) \<Rightarrow> wl b gs visited' queue')
        else Some False) = Some r"
    show "\<forall>m::memory. board (the_game m) = b \<and> local_visited m = V \<and> local_queue m = Q
          \<longrightarrow> (\<exists>m'. while_loop_run m gs = Some (r, m'))"
    proof (intro allI impI)
      fix m :: memory
      assume m: "board (the_game m) = b \<and> local_visited m = V \<and> local_queue m = Q"
      from body obtain res where res: "for_loop b gs (length Q) V Q = Some res"
        by (auto simp: queue_truth_def split: option.splits)
      from m res for_loop_run_pure [of m gs "length Q"]
      have "map_option (map_flow fst (\<lambda>m'. (local_visited m', local_queue m')))
          (for_loop_run m gs (length (local_queue m))) = Some res"
        by simp
      then obtain fl where fl: "for_loop_run m gs (length (local_queue m)) = Some fl"
        and rel: "map_flow fst (\<lambda>m'. (local_visited m', local_queue m')) fl = res"
        by (cases "for_loop_run m gs (length (local_queue m))") simp_all
      have unfold: "while_loop_run m gs =
          (case fl of Return r \<Rightarrow> Some r | Next m' \<Rightarrow> while_loop_run m' gs)"
        by (subst while_loop_run.simps) (simp only: fl queue_truth_def if_True option.case)
      show "\<exists>m'. while_loop_run m gs = Some (r, m')"
      proof (cases fl)
        case (Return x)
        obtain r0 m0 where x: "x = (r0, m0)" by (cases x)
        from Return x rel have "res = Return r0" by simp
        with res body have "r0 = r" by (simp add: queue_truth_def)
        with unfold Return x show ?thesis by simp
      next
        case (Next m1)
        with rel have "res = Next (local_visited m1, local_queue m1)" by simp
        with res body have "wl b gs (local_visited m1) (local_queue m1) = Some r"
          by (simp add: queue_truth_def)
        note ih = IH [OF this]
        from for_loop_run_frame [of m gs "length (local_queue m)" undefined m1] fl Next m
        have "board (the_game m1) = b" by simp
        with ih obtain m' where "while_loop_run m1 gs = Some (r, m')" by blast
        with unfold Next show ?thesis by simp
      qed
    qed
  qed
  then show "board (the_game (m::memory)) = b \<Longrightarrow> local_visited m = V \<Longrightarrow> local_queue m = Q
      \<Longrightarrow> \<exists>m'. while_loop_run m gs = Some (r, m')"
    by blast
qed

lemma can_player_reach_goal_run_pure:
  assumes "can_player_reach_goal_run m p = Some (r, m')"
  shows "can_player_reach_goal (the_game m) p = Some r \<and> the_game m' = the_game m
       \<and> local_possible_moves m' = local_possible_moves m"
  using while_loop_run_pure [OF assms [unfolded can_player_reach_goal_run_def]]
  by (simp add: can_player_reach_goal_def)

lemma can_player_reach_goal_run_exists:
  assumes "can_player_reach_goal (the_game m) p = Some r"
  shows "\<exists>m'. can_player_reach_goal_run m p = Some (r, m')"
  using while_loop_run_exists [OF assms [unfolded can_player_reach_goal_def]]
  by (simp add: can_player_reach_goal_run_def)

lemma players_loop_run_pure:
  "players_loop_run m ps = Some (r, m') \<Longrightarrow>
     players_loop (the_game m) ps = Some r \<and> the_game m' = the_game m
     \<and> local_possible_moves m' = local_possible_moves m"
proof (induction ps arbitrary: m)
  case Nil
  then show ?case by simp
next
  case (Cons p ps)
  from Cons.prems obtain r1 m1 where one: "can_player_reach_goal_run m p = Some (r1, m1)"
    by (auto split: option.splits)
  note pure = can_player_reach_goal_run_pure [OF one]
  show ?case
  proof (cases r1)
    case True
    with one Cons.prems have "players_loop_run m1 ps = Some (r, m')" by simp
    from Cons.IH [OF this] pure True show ?thesis by simp
  next
    case False
    with one Cons.prems pure show ?thesis by auto
  qed
qed

lemma players_loop_run_exists:
  "players_loop (the_game m) ps = Some r \<Longrightarrow> \<exists>m'. players_loop_run m ps = Some (r, m')"
proof (induction ps arbitrary: m)
  case Nil
  then show ?case by simp
next
  case (Cons p ps)
  from Cons.prems obtain r1 where one: "can_player_reach_goal (the_game m) p = Some r1"
    by (auto split: option.splits)
  from can_player_reach_goal_run_exists [OF one]
  obtain m1 where run: "can_player_reach_goal_run m p = Some (r1, m1)" by blast
  note pure = can_player_reach_goal_run_pure [OF run]
  show ?case
  proof (cases r1)
    case True
    with one Cons.prems pure have "players_loop (the_game m1) ps = Some r" by simp
    from Cons.IH [OF this] run True show ?thesis by simp
  next
    case False
    with one Cons.prems run show ?thesis by auto
  qed
qed

lemma check_valid_run_pure:
  assumes "check_valid_run m mv = Some (r, m')"
  shows "check_valid (the_game m) mv = Some r \<and> the_game m' = the_game m"
proof (cases mv)
  case (Move_MovePawn sq)
  with assms show ?thesis
    by (auto simp: Let_def add_moves_frame add_moves_result possible_moves_def split: sum.splits)
next
  case (Move_PlaceFenceHorizontally sq)
  with assms show ?thesis
    by (auto split: if_splits dest!: players_loop_run_pure)
next
  case (Move_PlaceFenceVertically sq)
  with assms show ?thesis
    by (auto split: if_splits dest!: players_loop_run_pure)
qed

lemma check_valid_run_exists:
  assumes "check_valid (the_game m) mv = Some r"
  shows "\<exists>m'. check_valid_run m mv = Some (r, m')"
proof (cases mv)
  case (Move_MovePawn sq)
  with assms show ?thesis
    by (auto simp: Let_def add_moves_frame add_moves_result possible_moves_def split: sum.splits)
next
  case (Move_PlaceFenceHorizontally sq)
  with assms show ?thesis
    using players_loop_run_exists [of m "players (the_game m)"]
    by (fastforce split: if_splits)
next
  case (Move_PlaceFenceVertically sq)
  with assms show ?thesis
    using players_loop_run_exists [of m "players (the_game m)"]
    by (fastforce split: if_splits)
qed

text \<open>
  C7. Validation is free of side effects on the game, and a rejection is atomic. Whenever
  \<open>check_valid\<close> returns, for any move and from any state, the game it leaves behind is
  the game it was given: every fence flag, every pawn and the turn counter are as before
  (only the validator's own set or queue differ). A second \<open>check_valid\<close> of the same
  move, run on the state the first one left, returns the same result and again leaves
  the game as it was. And when the game has started, the string parses to the move and
  validation returns false, \<open>Game.move\<close> ends in the state the validation left, with
  the game unchanged: the board is not mutated and the turn is not advanced.
\<close>

theorem validation_changes_nothing:
  "(check_valid_run m mv = Some (r, m') \<longrightarrow>
      the_game m' = the_game m
      \<and> (\<exists>m''. check_valid_run m' mv = Some (r, m'') \<and> the_game m'' = the_game m))
   \<and> (turn (the_game m) \<noteq> None \<and> parse (the_game m) s = Inr mv
       \<and> check_valid_run m mv = Some (Inr False, m')
      \<longrightarrow> move_run m s = Some (Inr m') \<and> the_game m' = the_game m)"
proof (intro conjI impI)
  assume run: "check_valid_run m mv = Some (r, m')"
  from check_valid_run_pure [OF run]
  have pure: "check_valid (the_game m) mv = Some r" and same: "the_game m' = the_game m"
    by simp_all
  from same show "the_game m' = the_game m" .
  from pure same have "check_valid (the_game m') mv = Some r" by simp
  from check_valid_run_exists [OF this] obtain m'' where
    again: "check_valid_run m' mv = Some (r, m'')" by blast
  from check_valid_run_pure [OF again] same have "the_game m'' = the_game m" by simp
  with again show "\<exists>m''. check_valid_run m' mv = Some (r, m'') \<and> the_game m'' = the_game m"
    by blast
next
  assume a: "turn (the_game m) \<noteq> None \<and> parse (the_game m) s = Inr mv
       \<and> check_valid_run m mv = Some (Inr False, m')"
  then show "move_run m s = Some (Inr m')"
    by (simp add: move_run_def del: check_valid_run.simps)
  from a check_valid_run_pure [of m mv "Inr False" m'] show "the_game m' = the_game m"
    by simp
qed

lemma idle_game: "the_game idle = start"
  by (simp add: idle_def)

theorem validation_changes_nothing_witness:
  "turn (the_game idle) \<noteq> None
   \<and> parse (the_game idle) ''e5'' = Inr (Move_MovePawn (4, 4))
   \<and> (\<exists>m'. check_valid_run idle (Move_MovePawn (4, 4)) = Some (Inr False, m')
         \<and> the_game m' = the_game idle
         \<and> (\<exists>m''. check_valid_run m' (Move_MovePawn (4, 4)) = Some (Inr False, m'')
               \<and> the_game m'' = the_game idle)
         \<and> move_run idle ''e5'' = Some (Inr m'))
   \<and> (\<exists>m'. check_valid_run idle (Move_PlaceFenceHorizontally (4, 4)) = Some (Inr True, m')
         \<and> the_game m' = the_game idle
         \<and> (\<exists>m''. check_valid_run m' (Move_PlaceFenceHorizontally (4, 4)) = Some (Inr True, m'')
               \<and> the_game m'' = the_game idle))"
proof -
  have t: "turn (the_game idle) \<noteq> None"
    by (simp add: idle_game start_def Let_def)
  have p: "parse (the_game idle) ''e5'' = Inr (Move_MovePawn (4, 4))"
    by (simp add: idle_game parse_def getitem_def int_of_char_def list_index_def board_start
        empty_board_def)
  have "check_valid start (Move_MovePawn (4, 4)) = Some (Inr False)"
    by code_simp
  then have "check_valid (the_game idle) (Move_MovePawn (4, 4)) = Some (Inr False)"
    by (simp only: idle_game)
  from check_valid_run_exists [OF this] obtain m1 where
    pawn_run: "check_valid_run idle (Move_MovePawn (4, 4)) = Some (Inr False, m1)"
    by blast
  have "check_valid start (Move_PlaceFenceHorizontally (4, 4)) = Some (Inr True)"
    by code_simp
  then have "check_valid (the_game idle) (Move_PlaceFenceHorizontally (4, 4)) = Some (Inr True)"
    by (simp only: idle_game)
  from check_valid_run_exists [OF this] obtain m2 where
    fence_run: "check_valid_run idle (Move_PlaceFenceHorizontally (4, 4)) = Some (Inr True, m2)"
    by blast
  from validation_changes_nothing [of idle "Move_MovePawn (4, 4)" "Inr False" m1 "''e5''"]
    validation_changes_nothing [of idle "Move_PlaceFenceHorizontally (4, 4)" "Inr True" m2 "''e5''"]
    t p pawn_run fence_run
  show ?thesis by blast
qed

text \<open>
  Seen through the game alone, the state transformers are the functions \<open>check_valid\<close>
  and \<open>move\<close> used everywhere else.
\<close>

lemma check_valid_run_refines:
  "map_option fst (check_valid_run m mv) = check_valid (the_game m) mv"
proof (cases "check_valid_run m mv")
  case None
  show ?thesis
  proof (cases "check_valid (the_game m) mv")
    case pure_None: None
    with None show ?thesis by simp
  next
    case (Some r)
    from check_valid_run_exists [OF this] None show ?thesis by simp
  qed
next
  case (Some res)
  obtain r m' where "res = (r, m')" by (cases res)
  with Some check_valid_run_pure [of m mv r m'] show ?thesis by simp
qed

lemma move_run_refines:
  "map_option (map_sum id the_game) (move_run m s) = move (the_game m) s"
proof (cases "turn (the_game m) = None")
  case True
  then show ?thesis by (simp add: move_run_def move_def)
next
  case started: False
  show ?thesis
  proof (cases "parse (the_game m) s")
    case (Inl e)
    with started show ?thesis by (auto simp: move_run_def move_def)
  next
    case (Inr mv)
    show ?thesis
    proof (cases "check_valid_run m mv")
      case None
      with check_valid_run_refines [of m mv] have "check_valid (the_game m) mv = None"
        by simp
      with None Inr started show ?thesis by (auto simp: move_run_def move_def)
    next
      case (Some res)
      obtain r m' where res: "res = (r, m')" by (cases res)
      from Some res check_valid_run_pure [of m mv r m']
      have pure: "check_valid (the_game m) mv = Some r" and same: "the_game m' = the_game m"
        by simp_all
      from Some res pure same Inr started show ?thesis
        by (auto simp: move_run_def move_def split: sum.splits)
    qed
  qed
qed

section \<open>What the fence validators consult\<close>

lemma players_loop_iff:
  "players_loop g ps =
     (if list_all (\<lambda>p. reachable (board g) (pawn p) (goals p)) ps then Some True else None)"
  by (induction ps) (simp_all add: can_player_reach_goal_iff)

text \<open>
  C9. The overlap check looks one way only. A horizontal fence on \<open>A\<close> is rejected for a
  flag on \<open>A\<close> or on its east neighbour; a flag on the west neighbour \<open>W\<close> is not
  consulted, although the fence on \<open>W\<close> and the fence on \<open>A\<close> both block the south
  edge of \<open>A\<close> (each does so alone, on an otherwise empty board of the same size). So with
  \<open>W\<close> flagged, \<open>A\<close> and its east neighbour not flagged, and every player able to
  reach its goal, the fence on \<open>A\<close> is accepted. The same holds for a vertical fence
  on \<open>B\<close> with the north neighbour \<open>N\<close> flagged, and the east edge of \<open>B\<close>.
\<close>

theorem overlap_check_one_sided:
  "(west_square (board g) A = Some W \<and> has_horizontal_fence (board g) W
      \<and> \<not> has_horizontal_fence (board g) A
      \<and> \<not> (\<exists>E. east_square (board g) A = Some E \<and> has_horizontal_fence (board g) E)
      \<and> list_all (\<lambda>p. reachable (board g) (pawn p) (goals p)) (players g)
    \<longrightarrow> check_valid g (Move_PlaceFenceHorizontally A) = Some (Inr True)
        \<and> south_fence (place_horizontal_fence (empty_board (width (board g)) (height (board g))) W) A
        \<and> south_fence (place_horizontal_fence (empty_board (width (board g)) (height (board g))) A) A)
   \<and> (north_square (board g) B = Some N \<and> has_vertical_fence (board g) N
      \<and> \<not> has_vertical_fence (board g) B
      \<and> \<not> (\<exists>S. south_square (board g) B = Some S \<and> has_vertical_fence (board g) S)
      \<and> list_all (\<lambda>p. reachable (board g) (pawn p) (goals p)) (players g)
    \<longrightarrow> check_valid g (Move_PlaceFenceVertically B) = Some (Inr True)
        \<and> east_fence (place_vertical_fence (empty_board (width (board g)) (height (board g))) N) B
        \<and> east_fence (place_vertical_fence (empty_board (width (board g)) (height (board g))) B) B)"
proof (intro conjI impI)
  assume h: "west_square (board g) A = Some W \<and> has_horizontal_fence (board g) W
      \<and> \<not> has_horizontal_fence (board g) A
      \<and> \<not> (\<exists>E. east_square (board g) A = Some E \<and> has_horizontal_fence (board g) E)
      \<and> list_all (\<lambda>p. reachable (board g) (pawn p) (goals p)) (players g)"
  then show "check_valid g (Move_PlaceFenceHorizontally A) = Some (Inr True)"
    by (auto simp: players_loop_iff split: option.splits)
  obtain x y where "A = (x, y)" by (cases A)
  with h show "south_fence (place_horizontal_fence (empty_board (width (board g)) (height (board g))) W) A"
    by (auto simp: south_fence_def board_get_def empty_board_def place_horizontal_fence_def
        split: if_splits)
  show "south_fence (place_horizontal_fence (empty_board (width (board g)) (height (board g))) A) A"
    by (simp add: south_fence_def place_horizontal_fence_def)
next
  assume v: "north_square (board g) B = Some N \<and> has_vertical_fence (board g) N
      \<and> \<not> has_vertical_fence (board g) B
      \<and> \<not> (\<exists>S. south_square (board g) B = Some S \<and> has_vertical_fence (board g) S)
      \<and> list_all (\<lambda>p. reachable (board g) (pawn p) (goals p)) (players g)"
  then show "check_valid g (Move_PlaceFenceVertically B) = Some (Inr True)"
    by (auto simp: players_loop_iff split: option.splits)
  obtain x y where "B = (x, y)" by (cases B)
  with v show "east_fence (place_vertical_fence (empty_board (width (board g)) (height (board g))) N) B"
    by (auto simp: east_fence_def board_get_def empty_board_def place_vertical_fence_def
        split: if_splits)
  show "east_fence (place_vertical_fence (empty_board (width (board g)) (height (board g))) B) B"
    by (simp add: east_fence_def place_vertical_fence_def)
qed

lemma adjoining_players_loop: "players_loop adjoining (players adjoining) = Some True"
  by code_simp

lemma adjoining_reach:
  "list_all (\<lambda>p. reachable (board adjoining) (pawn p) (goals p)) (players adjoining)"
  using adjoining_players_loop by (simp add: players_loop_iff split: if_splits)

lemma adjoining_board:
  "board adjoining = place_vertical_fence (place_horizontal_fence (empty_board 9 9) (3, 4)) (2, 1)"
  by (simp add: adjoining_def board_start)

theorem overlap_check_one_sided_witness:
  "west_square (board adjoining) (4, 4) = Some (3, 4)
   \<and> has_horizontal_fence (board adjoining) (3, 4)
   \<and> \<not> has_horizontal_fence (board adjoining) (4, 4)
   \<and> north_square (board adjoining) (2, 2) = Some (2, 1)
   \<and> has_vertical_fence (board adjoining) (2, 1)
   \<and> \<not> has_vertical_fence (board adjoining) (2, 2)
   \<and> list_all (\<lambda>p. reachable (board adjoining) (pawn p) (goals p)) (players adjoining)
   \<and> check_valid adjoining (Move_PlaceFenceHorizontally (4, 4)) = Some (Inr True)
   \<and> check_valid adjoining (Move_PlaceFenceVertically (2, 2)) = Some (Inr True)"
proof -
  have a: "west_square (board adjoining) (4, 4) = Some (3, 4)"
    "has_horizontal_fence (board adjoining) (3, 4)"
    "\<not> has_horizontal_fence (board adjoining) (4, 4)"
    "\<not> (\<exists>E. east_square (board adjoining) (4, 4) = Some E \<and> has_horizontal_fence (board adjoining) E)"
    "north_square (board adjoining) (2, 2) = Some (2, 1)"
    "has_vertical_fence (board adjoining) (2, 1)"
    "\<not> has_vertical_fence (board adjoining) (2, 2)"
    "\<not> (\<exists>S. south_square (board adjoining) (2, 2) = Some S \<and> has_vertical_fence (board adjoining) S)"
    by (auto simp: adjoining_board board_get_def empty_board_def place_horizontal_fence_def
        place_vertical_fence_def split: if_splits)
  from overlap_check_one_sided [of adjoining "(4, 4)" "(3, 4)" "(2, 2)" "(2, 1)"] a adjoining_reach
  show ?thesis by blast
qed

text \<open>
  C10. The fence validators never read the flag of the other orientation. The result of
  validating a vertical fence on \<open>A\<close> is determined by the vertical flags of \<open>A\<close> and
  of its south neighbour and by whether every player can reach its goal (if not, the
  validation does not return); likewise for a horizontal fence on \<open>B\<close>, with the
  horizontal flags of \<open>B\<close> and its east neighbour. In particular a vertical fence across
  an existing horizontal one on the same square, and a horizontal fence across an existing
  vertical one, are accepted when every player can reach its goal.
\<close>

theorem fence_check_ignores_crossing:
  "check_valid g (Move_PlaceFenceVertically A) =
     (if has_vertical_fence (board g) A
         \<or> (\<exists>S. south_square (board g) A = Some S \<and> has_vertical_fence (board g) S)
      then Some (Inr False)
      else if list_all (\<lambda>p. reachable (board g) (pawn p) (goals p)) (players g)
      then Some (Inr True) else None)
   \<and> check_valid g (Move_PlaceFenceHorizontally B) =
     (if has_horizontal_fence (board g) B
         \<or> (\<exists>E. east_square (board g) B = Some E \<and> has_horizontal_fence (board g) E)
      then Some (Inr False)
      else if list_all (\<lambda>p. reachable (board g) (pawn p) (goals p)) (players g)
      then Some (Inr True) else None)
   \<and> (has_horizontal_fence (board g) A \<and> \<not> has_vertical_fence (board g) A
       \<and> \<not> (\<exists>S. south_square (board g) A = Some S \<and> has_vertical_fence (board g) S)
       \<and> list_all (\<lambda>p. reachable (board g) (pawn p) (goals p)) (players g)
      \<longrightarrow> check_valid g (Move_PlaceFenceVertically A) = Some (Inr True))
   \<and> (has_vertical_fence (board g) B \<and> \<not> has_horizontal_fence (board g) B
       \<and> \<not> (\<exists>E. east_square (board g) B = Some E \<and> has_horizontal_fence (board g) E)
       \<and> list_all (\<lambda>p. reachable (board g) (pawn p) (goals p)) (players g)
      \<longrightarrow> check_valid g (Move_PlaceFenceHorizontally B) = Some (Inr True))"
proof -
  have v: "check_valid g (Move_PlaceFenceVertically A) =
     (if has_vertical_fence (board g) A
         \<or> (\<exists>S. south_square (board g) A = Some S \<and> has_vertical_fence (board g) S)
      then Some (Inr False)
      else if list_all (\<lambda>p. reachable (board g) (pawn p) (goals p)) (players g)
      then Some (Inr True) else None)"
    by (auto simp: players_loop_iff split: option.splits)
  have h: "check_valid g (Move_PlaceFenceHorizontally B) =
     (if has_horizontal_fence (board g) B
         \<or> (\<exists>E. east_square (board g) B = Some E \<and> has_horizontal_fence (board g) E)
      then Some (Inr False)
      else if list_all (\<lambda>p. reachable (board g) (pawn p) (goals p)) (players g)
      then Some (Inr True) else None)"
    by (auto simp: players_loop_iff split: option.splits)
  show ?thesis
    by (intro conjI impI) (simp_all only: h v, simp_all)
qed

lemma crossing_players_loop: "players_loop crossing (players crossing) = Some True"
  by code_simp

lemma crossing_reach:
  "list_all (\<lambda>p. reachable (board crossing) (pawn p) (goals p)) (players crossing)"
  using crossing_players_loop by (simp add: players_loop_iff split: if_splits)

lemma crossing_board:
  "board crossing = place_vertical_fence (place_horizontal_fence (empty_board 9 9) (4, 4)) (2, 2)"
  by (simp add: crossing_def board_start)

theorem fence_check_ignores_crossing_witness:
  "has_horizontal_fence (board crossing) (4, 4) \<and> \<not> has_vertical_fence (board crossing) (4, 4)
   \<and> has_vertical_fence (board crossing) (2, 2) \<and> \<not> has_horizontal_fence (board crossing) (2, 2)
   \<and> list_all (\<lambda>p. reachable (board crossing) (pawn p) (goals p)) (players crossing)
   \<and> check_valid crossing (Move_PlaceFenceVertically (4, 4)) = Some (Inr True)
   \<and> check_valid crossing (Move_PlaceFenceHorizontally (2, 2)) = Some (Inr True)"
proof -
  have a: "has_horizontal_fence (board crossing) (4, 4)"
    "\<not> has_vertical_fence (board crossing) (4, 4)"
    "\<not> (\<exists>S. south_square (board crossing) (4, 4) = Some S \<and> has_vertical_fence (board crossing) S)"
    "has_vertical_fence (board crossing) (2, 2)"
    "\<not> has_horizontal_fence (board crossing) (2, 2)"
    "\<not> (\<exists>E. east_square (board crossing) (2, 2) = Some E \<and> has_horizontal_fence (board crossing) E)"
    by (auto simp: crossing_board board_get_def empty_board_def place_horizontal_fence_def
        place_vertical_fence_def split: if_splits)
  from fence_check_ignores_crossing [of crossing "(4, 4)" "(2, 2)"] a crossing_reach
  show ?thesis by blast
qed

section \<open>The example positions arise in play\<close>

text \<open>
  The positions used above are reached from \<open>start\<close> by calls of \<open>Game.move\<close>, and after
  the five fences of \<open>sealed\<close> the next fence move never returns.
\<close>

lemma accepted_move_step:
  assumes "turn g = Some t"
    and "parse g s = Inr m"
    and "check_valid g m = Some (Inr True)"
    and "apply_move g m = Inr g'"
    and "turn g' = Some t"
    and "current_player g' = Inr p"
    and "pawn p \<notin> set (goals p)"
  shows "move g s = Some (Inr (g'\<lparr>turn := Some (t + 1)\<rparr>))"
  using assms by (simp add: move_def end_turn_def)

lemma parse_on_9x9:
  assumes "width (board g) = 9" and "height (board g) = 9"
  shows "parse g ''a4h'' = Inr (Move_PlaceFenceHorizontally (0, 3))"
    and "parse g ''c4h'' = Inr (Move_PlaceFenceHorizontally (2, 3))"
    and "parse g ''e4h'' = Inr (Move_PlaceFenceHorizontally (4, 3))"
    and "parse g ''g4h'' = Inr (Move_PlaceFenceHorizontally (6, 3))"
    and "parse g ''i4h'' = Inr (Move_PlaceFenceHorizontally (8, 3))"
    and "parse g ''a1h'' = Inr (Move_PlaceFenceHorizontally (0, 0))"
  using assms by (simp_all add: parse_def getitem_def int_of_char_def list_index_def)

lemma wall_dims: "width (board (wall hs t)) = 9" "height (board (wall hs t)) = 9"
  by (induction hs rule: rev_induct)
    (simp_all add: wall_def board_start empty_board_def place_horizontal_fence_def)

lemma wall_turn: "turn (wall hs t) = Some t"
  by (simp add: wall_def)

lemma wall_players: "players (wall hs t) = players start"
  by (simp add: wall_def)

lemma wall_current:
  "current_player (wall hs t) = Inr (players start ! nat (t mod 2))"
  by (simp add: wall_def current_player_def current_index_def players_start)

lemma start_not_won:
  "pawn (players start ! 0) \<notin> set (goals (players start ! 0))"
  "pawn (players start ! 1) \<notin> set (goals (players start ! 1))"
  by (auto simp: players_start)

lemma wall_apply:
  "apply_move (wall hs t) (Move_PlaceFenceHorizontally sq) = Inr (wall (hs @ [sq]) t)"
  by (simp add: wall_def)

lemma wall_valid:
  "check_valid (wall [] 1) (Move_PlaceFenceHorizontally (0, 3)) = Some (Inr True)"
  "check_valid (wall [(0, 3)] 2) (Move_PlaceFenceHorizontally (2, 3)) = Some (Inr True)"
  "check_valid (wall [(0, 3), (2, 3)] 3) (Move_PlaceFenceHorizontally (4, 3)) = Some (Inr True)"
  "check_valid (wall [(0, 3), (2, 3), (4, 3)] 4) (Move_PlaceFenceHorizontally (6, 3)) = Some (Inr True)"
  "check_valid (wall [(0, 3), (2, 3), (4, 3), (6, 3)] 5) (Move_PlaceFenceHorizontally (8, 3)) = Some (Inr True)"
  by code_simp+

lemma wall_move:
  assumes "parse (wall hs t) s = Inr (Move_PlaceFenceHorizontally sq)"
    and "check_valid (wall hs t) (Move_PlaceFenceHorizontally sq) = Some (Inr True)"
  shows "move (wall hs t) s = Some (Inr (wall (hs @ [sq]) (t + 1)))"
proof -
  have "t mod 2 = 0 \<or> t mod 2 = 1" by presburger
  then have "pawn (players start ! nat (t mod 2)) \<notin> set (goals (players start ! nat (t mod 2)))"
    using start_not_won by auto
  from accepted_move_step [OF wall_turn assms wall_apply wall_turn wall_current this]
  show ?thesis by (simp add: wall_def)
qed

lemma start_wall: "start = wall [] 1"
  by (simp add: wall_def start_def Let_def)

lemma walled_wall: "walled = wall [(0, 3), (2, 3), (4, 3), (6, 3)] 5"
  by (simp add: walled_def wall_def)

lemma sealed_board: "board sealed = board (wall [(0, 3), (2, 3), (4, 3), (6, 3), (8, 3)] t)"
  by (simp add: sealed_def walled_def wall_def)

lemma walled_played: "play start [''a4h'', ''c4h'', ''e4h'', ''g4h''] = Some (Inr walled)"
  using wall_move [OF parse_on_9x9(1) [OF wall_dims] wall_valid(1)]
    wall_move [OF parse_on_9x9(2) [OF wall_dims] wall_valid(2)]
    wall_move [OF parse_on_9x9(3) [OF wall_dims] wall_valid(3)]
    wall_move [OF parse_on_9x9(4) [OF wall_dims] wall_valid(4)]
  by (simp add: start_wall walled_wall)

lemma sealed_played:
  "play start [''a4h'', ''c4h'', ''e4h'', ''g4h'', ''i4h''] = Some (Inr (sealed\<lparr>turn := Some 6\<rparr>))"
proof -
  have "sealed\<lparr>turn := Some 6\<rparr> = wall [(0, 3), (2, 3), (4, 3), (6, 3), (8, 3)] 6"
    by (simp add: sealed_def walled_def wall_def)
  then show ?thesis
  using wall_move [OF parse_on_9x9(1) [OF wall_dims] wall_valid(1)]
    wall_move [OF parse_on_9x9(2) [OF wall_dims] wall_valid(2)]
    wall_move [OF parse_on_9x9(3) [OF wall_dims] wall_valid(3)]
    wall_move [OF parse_on_9x9(4) [OF wall_dims] wall_valid(4)]
    wall_move [OF parse_on_9x9(5) [OF wall_dims] wall_valid(5)]
  by (simp add: start_wall)
qed

lemma sealed_move_hangs: "move (sealed\<lparr>turn := Some 6\<rparr>) ''a1h'' = None"
proof -
  let ?g = "sealed\<lparr>turn := Some 6\<rparr>"
  have dims: "width (board ?g) = 9" "height (board ?g) = 9"
    by (simp_all add: sealed_dims)
  have "players ?g = players sealed" by simp
  moreover have "players sealed = players sealed ! 0 # tl (players sealed)"
    by (simp add: sealed_def walled_def players_start)
  moreover have "can_player_reach_goal ?g (players sealed ! 0) = None"
    using sealed_unreachable by (simp add: can_player_reach_goal_iff)
  ultimately have "players_loop ?g (players ?g) = None"
    by (metis option.simps(4) players_loop.simps(2))
  moreover have "\<not> has_horizontal_fence (board ?g) (0, 0)"
    "east_square (board ?g) (0, 0) = Some (1, 0)"
    "\<not> has_horizontal_fence (board ?g) (1, 0)"
    by (simp_all add: sealed_flags sealed_dims board_get_def)
  ultimately have "check_valid ?g (Move_PlaceFenceHorizontally (0, 0)) = None"
    by simp
  with parse_on_9x9(6) [OF dims] show ?thesis
    by (simp add: move_def del: check_valid.simps)
qed

lemma play_append:
  "play g (xs @ ys) =
     (case play g xs of
        None \<Rightarrow> None
      | Some (Inl e) \<Rightarrow> Some (Inl e)
      | Some (Inr g') \<Rightarrow> play g' ys)"
  by (induction xs arbitrary: g) (auto split: option.splits sum.splits)

lemma game_hangs:
  "play start [''a4h'', ''c4h'', ''e4h'', ''g4h'', ''i4h'', ''a1h''] = None"
proof -
  have "play start ([''a4h'', ''c4h'', ''e4h'', ''g4h'', ''i4h''] @ [''a1h'']) = None"
    unfolding play_append sealed_played by (simp add: sealed_move_hangs)
  then show ?thesis by simp
qed

lemma facing_played:
  "play start [''e8'', ''e2'', ''e7'', ''e3'', ''e6'', ''e4'', ''e5''] = Some (Inr facing)"
  by (simp add: move_def parse_def getitem_def int_of_char_def list_index_def
      possible_moves_def moves_toward_def cardinal_points_def is_connected_with_square_at_def
      west_fence_def east_fence_def north_fence_def south_fence_def board_get_def has_pawn_def
      current_player_def current_index_def end_turn_def start_def Let_def get_row_def
      empty_board_def facing_def upto.simps)

lemma two_fences_played:
  assumes p1: "parse start s1 = Inr (Move_PlaceFenceHorizontally a)"
    and p2: "parse (start\<lparr>board := place_horizontal_fence (board start) a, turn := Some 2\<rparr>) s2
              = Inr (Move_PlaceFenceVertically c)"
    and c1: "check_valid start (Move_PlaceFenceHorizontally a) = Some (Inr True)"
    and c2: "check_valid (start\<lparr>board := place_horizontal_fence (board start) a, turn := Some 2\<rparr>)
              (Move_PlaceFenceVertically c) = Some (Inr True)"
  shows "play start [s1, s2] =
     Some (Inr (start\<lparr>board := place_vertical_fence (place_horizontal_fence (board start) a) c,
                      turn := Some 3\<rparr>))"
proof -
  let ?g1 = "start\<lparr>board := place_horizontal_fence (board start) a\<rparr>"
  let ?g1' = "start\<lparr>board := place_horizontal_fence (board start) a, turn := Some 2\<rparr>"
  let ?g2 = "?g1'\<lparr>board := place_vertical_fence (board ?g1') c\<rparr>"
  have t0: "turn start = Some 1" by (simp add: start_def Let_def)
  have m1: "move start s1 = Some (Inr ?g1')"
    using accepted_move_step [OF t0 p1 c1, of ?g1 "players start ! 1"] start_not_won(2) t0
    by (simp add: current_player_def current_index_def players_start)
  have m2: "move ?g1' s2 = Some (Inr (?g2\<lparr>turn := Some 3\<rparr>))"
    using accepted_move_step [OF _ p2 c2, of 2 ?g2 "players start ! 0"] start_not_won(1)
    by (simp add: current_player_def current_index_def players_start)
  from m1 m2 show ?thesis by simp
qed

lemma adjoining_played: "play start [''d5h'', ''c2v''] = Some (Inr adjoining)"
proof -
  have "parse start ''d5h'' = Inr (Move_PlaceFenceHorizontally (3, 4))"
    "parse (start\<lparr>board := place_horizontal_fence (board start) (3, 4), turn := Some 2\<rparr>) ''c2v''
       = Inr (Move_PlaceFenceVertically (2, 1))"
    by (simp_all add: parse_def getitem_def int_of_char_def list_index_def board_start
        empty_board_def place_horizontal_fence_def)
  moreover have "check_valid start (Move_PlaceFenceHorizontally (3, 4)) = Some (Inr True)"
    by code_simp
  moreover have "check_valid (start\<lparr>board := place_horizontal_fence (board start) (3, 4), turn := Some 2\<rparr>)
      (Move_PlaceFenceVertically (2, 1)) = Some (Inr True)"
    by code_simp
  ultimately show ?thesis
    unfolding adjoining_def by (rule two_fences_played)
qed

lemma crossing_played: "play start [''e5h'', ''c3v''] = Some (Inr crossing)"
proof -
  have "parse start ''e5h'' = Inr (Move_PlaceFenceHorizontally (4, 4))"
    "parse (start\<lparr>board := place_horizontal_fence (board start) (4, 4), turn := Some 2\<rparr>) ''c3v''
       = Inr (Move_PlaceFenceVertically (2, 2))"
    by (simp_all add: parse_def getitem_def int_of_char_def list_index_def board_start
        empty_board_def place_horizontal_fence_def)
  moreover have "check_valid start (Move_PlaceFenceHorizontally (4, 4)) = Some (Inr True)"
    by code_simp
  moreover have "check_valid (start\<lparr>board := place_horizontal_fence (board start) (4, 4), turn := Some 2\<rparr>)
      (Move_PlaceFenceVertically (2, 2)) = Some (Inr True)"
    by code_simp
  ultimately show ?thesis
    unfolding crossing_def by (rule two_fences_played)
qed

end
